theory Spec2Isabelle
  imports Main "HOL-Library.Sublist" "HOL-Library.AList" "HOL-Library.List_Lexorder"
    "HOL-Library.Char_ord"
begin

text \<open>
  A model of the Engineering Knowledge Graph: the connectors that turn configuration
  sources into nodes and edges, the graph store that merges them, the ownership
  resolution pass, and the query engine. The store and the query engine talk to a graph
  database through Cypher queries; each query is modelled by a function on an explicit
  property graph that computes what the query matches, writes and returns.
\<close>

section \<open>Data model (connectors/base.py)\<close>

text \<open>
  Property values are the scalars a YAML source yields and a graph property can hold.
  \<open>VNone\<close> is Python's \<open>None\<close>, which the driver sends to the database as
  \<open>null\<close>.
\<close>

datatype val = VNone | VStr string | VInt int | VBool bool

type_synonym props = "string \<rightharpoonup> val"

text \<open>The dataclasses \<open>Node\<close> and \<open>Edge\<close>.\<close>

record Node =
  node_id :: string
  node_type :: string
  node_name :: string
  node_properties :: props

record Edge =
  edge_id :: string
  edge_type :: string
  source :: string
  target :: string
  edge_properties :: props

text \<open>
  \<open>BaseConnector._add_node\<close>: a node whose id is already in the batch has its
  properties updated in place (\<open>dict.update\<close>); otherwise the node is appended.
\<close>

fun add_node :: "Node list \<Rightarrow> Node \<Rightarrow> Node list" where
  "add_node [] n = [n]"
| "add_node (x # xs) n =
     (if node_id x = node_id n
      then x\<lparr>node_properties := node_properties x ++ node_properties n\<rparr> # xs
      else x # add_node xs n)"

text \<open>
  \<open>BaseConnector._add_edge\<close>: the edge is appended only when no edge of the batch has
  its id.
\<close>

definition add_edge :: "Edge list \<Rightarrow> Edge \<Rightarrow> Edge list" where
  "add_edge es e =
     (case find (\<lambda>x. edge_id x = edge_id e) es of
        None \<Rightarrow> es @ [e]
      | Some existing \<Rightarrow> es)"

section \<open>Graph store (graph/storage.py)\<close>

text \<open>
  The store is a property graph. A stored node is its flat property map: the keys
  \<open>id\<close>, \<open>type\<close> and \<open>name\<close> live in the same map as every key of
  \<open>properties\<close>, as \<open>n += $properties\<close> writes them and \<open>dict(record["n"])\<close>
  reads them back. A node is identified by its position in \<open>g_nodes\<close>; a
  relationship holds the positions of its two end nodes and its own flat property map.
  No operation modelled here removes a node, so positions are stable.
\<close>

record rel =
  rel_start :: nat
  rel_end :: nat
  rel_props :: props

record graph =
  g_nodes :: "props list"
  g_rels :: "rel list"

definition empty_graph :: graph where
  "empty_graph = \<lparr>g_nodes = [], g_rels = []\<rparr>"

text \<open>
  \<open>SET x += $map\<close>: every key of the map is written; a key whose value is \<open>null\<close>
  is removed; the other keys of \<open>x\<close> stay.
\<close>

definition merge_props :: "props \<Rightarrow> props \<Rightarrow> props" where
  "merge_props m ps =
     (\<lambda>k. case ps k of None \<Rightarrow> m k | Some VNone \<Rightarrow> None | Some v \<Rightarrow> Some v)"

text \<open>The property test \<open>{id: $id}\<close> of a pattern.\<close>

definition has_id :: "string \<Rightarrow> props \<Rightarrow> bool" where
  "has_id i m = (m ''id'' = Some (VStr i))"

text \<open>
  The \<open>SET\<close> clause of \<open>upsert_node\<close>, applied left to right:
  \<open>n.type = $type, n.name = $name, n += $properties\<close>.
\<close>

definition set_node :: "Node \<Rightarrow> props \<Rightarrow> props" where
  "set_node n m =
     merge_props (m(''type'' \<mapsto> VStr (node_type n), ''name'' \<mapsto> VStr (node_name n)))
       (node_properties n)"

text \<open>
  \<open>GraphStorage.upsert_node\<close>: \<open>MERGE (n {id: $id})\<close> binds every node with that
  id, or creates one holding only the id when there is none; the \<open>SET\<close> clause then
  runs on each bound node.
\<close>

definition upsert_node :: "graph \<Rightarrow> Node \<Rightarrow> graph" where
  "upsert_node g n =
     (if \<exists>m \<in> set (g_nodes g). has_id (node_id n) m
      then g\<lparr>g_nodes := map (\<lambda>m. if has_id (node_id n) m then set_node n m else m) (g_nodes g)\<rparr>
      else g\<lparr>g_nodes := g_nodes g @ [set_node n (Map.empty(''id'' \<mapsto> VStr (node_id n)))]\<rparr>)"

text \<open>The positions of the nodes a pattern \<open>({id: $i})\<close> matches.\<close>

definition match_id :: "graph \<Rightarrow> string \<Rightarrow> nat list" where
  "match_id g i = filter (\<lambda>k. has_id i (g_nodes g ! k)) [0..<length (g_nodes g)]"

text \<open>The \<open>SET\<close> clause of \<open>upsert_edge\<close>: \<open>r.type = $type, r += $properties\<close>.\<close>

definition set_rel :: "Edge \<Rightarrow> props \<Rightarrow> props" where
  "set_rel e m = merge_props (m(''type'' \<mapsto> VStr (edge_type e))) (edge_properties e)"

definition rel_matches :: "Edge \<Rightarrow> nat \<Rightarrow> nat \<Rightarrow> rel \<Rightarrow> bool" where
  "rel_matches e s t r = (rel_start r = s \<and> rel_end r = t \<and> has_id (edge_id e) (rel_props r))"

text \<open>
  \<open>MERGE (source)-[r:EDGE {id: $id}]->(target)\<close> followed by the \<open>SET\<close> clause, for
  one pair of bound end nodes: every relationship with that id between the pair is bound,
  or one is created.
\<close>

definition merge_rel :: "Edge \<Rightarrow> nat \<times> nat \<Rightarrow> rel list \<Rightarrow> rel list" where
  "merge_rel e st rs =
     (if \<exists>r \<in> set rs. rel_matches e (fst st) (snd st) r
      then map (\<lambda>r. if rel_matches e (fst st) (snd st) r
                     then r\<lparr>rel_props := set_rel e (rel_props r)\<rparr> else r) rs
      else rs @ [\<lparr>rel_start = fst st, rel_end = snd st,
                   rel_props = set_rel e (Map.empty(''id'' \<mapsto> VStr (edge_id e)))\<rparr>])"

text \<open>
  \<open>GraphStorage.upsert_edge\<close>: the two \<open>MATCH\<close> clauses bind the end nodes by id;
  when either finds no node there is no row and the rest of the query does nothing.
\<close>

definition upsert_edge :: "graph \<Rightarrow> Edge \<Rightarrow> graph" where
  "upsert_edge g e =
     g\<lparr>g_rels := fold (merge_rel e)
                    (List.product (match_id g (source e)) (match_id g (target e)))
                    (g_rels g)\<rparr>"

definition bulk_upsert_nodes :: "graph \<Rightarrow> Node list \<Rightarrow> graph" where
  "bulk_upsert_nodes g ns = fold (\<lambda>n g'. upsert_node g' n) ns g"

definition bulk_upsert_edges :: "graph \<Rightarrow> Edge list \<Rightarrow> graph" where
  "bulk_upsert_edges g es = fold (\<lambda>e g'. upsert_edge g' e) es g"

text \<open>
  \<open>GraphStorage.get_node\<close>: \<open>result.single()\<close> gives the first record, or
  \<open>None\<close> when there is none.
\<close>

definition get_node :: "graph \<Rightarrow> string \<Rightarrow> props option" where
  "get_node g i =
     (case match_id g i of [] \<Rightarrow> None | k # ks \<Rightarrow> Some (g_nodes g ! k))"

section \<open>Team roster connector (connectors/teams.py) and its load step (main.py)\<close>

text \<open>
  One entry of the \<open>teams\<close> list of the roster. \<open>team_name\<close> is
  \<open>team.get("name")\<close>, \<open>None\<close> when the key is missing; the three contact fields
  are \<open>VNone\<close> when missing; \<open>owns\<close> is \<open>team.get("owns", [])\<close>.
\<close>

record team =
  team_name :: "string option"
  lead :: val
  slack_channel :: val
  pagerduty_schedule :: val
  owns :: "string list"

definition owns_edge :: "string \<Rightarrow> string \<Rightarrow> Edge" where
  "owns_edge name owned_item =
     \<lparr>edge_id = ''edge:'' @ name @ ''-owns-'' @ owned_item,
      edge_type = ''owns'',
      source = ''team:'' @ name,
      target = owned_item,
      edge_properties = Map.empty\<rparr>"

definition team_node :: "string \<Rightarrow> team \<Rightarrow> Node" where
  "team_node name t =
     \<lparr>node_id = ''team:'' @ name,
      node_type = ''team'',
      node_name = name,
      node_properties =
        [''lead'' \<mapsto> lead t, ''slack_channel'' \<mapsto> slack_channel t,
         ''pagerduty_schedule'' \<mapsto> pagerduty_schedule t]\<rparr>"

text \<open>
  The body of the loop of \<open>TeamsConnector.parse\<close> on the connector's \<open>nodes\<close> and
  \<open>edges\<close>: an entry without a name (missing or empty) is skipped; the target of
  each \<open>owns\<close> edge is the declared string as it stands.
\<close>

definition teams_step :: "team \<Rightarrow> Node list \<times> Edge list \<Rightarrow> Node list \<times> Edge list" where
  "teams_step t st =
     (case team_name t of
        None \<Rightarrow> st
      | Some name \<Rightarrow>
          if name = [] then st
          else (add_node (fst st) (team_node name t),
                fold (\<lambda>owned_item es. add_edge es (owns_edge name owned_item)) (owns t) (snd st)))"

definition teams_parse :: "team list \<Rightarrow> Node list \<times> Edge list" where
  "teams_parse ts = fold teams_step ts ([], [])"

text \<open>
  The roster step of \<open>load_graph\<close>: the parsed nodes, then the parsed edges, are
  upserted as the connector returned them.
\<close>

definition load_teams :: "graph \<Rightarrow> team list \<Rightarrow> graph" where
  "load_teams g ts =
     bulk_upsert_edges (bulk_upsert_nodes g (fst (teams_parse ts))) (snd (teams_parse ts))"

section \<open>Example data\<close>

definition svc :: "string \<Rightarrow> Node" where
  "svc name = \<lparr>node_id = ''service:'' @ name, node_type = ''service'', node_name = name,
               node_properties = Map.empty\<rparr>"

definition calls_edge :: "string \<Rightarrow> string \<Rightarrow> Edge" where
  "calls_edge a b = \<lparr>edge_id = ''edge:'' @ a @ ''-calls-'' @ b, edge_type = ''calls'',
                     source = ''service:'' @ a, target = ''service:'' @ b,
                     edge_properties = Map.empty\<rparr>"

definition team_t :: team where
  "team_t = \<lparr>team_name = Some ''T'', lead = VStr ''lee'', slack_channel = VNone,
             pagerduty_schedule = VNone, owns = [''A'']\<rparr>"

text \<open>Two services joined by one \<open>calls\<close> edge.\<close>

definition store_ab :: graph where
  "store_ab = upsert_edge (bulk_upsert_nodes empty_graph [svc ''A'', svc ''B'']) (calls_edge ''A'' ''B'')"

text \<open>
  A second write of the edge \<open>A \<rightarrow> B\<close> under the same id, with another type and a
  property, as the cluster-manifest connector attaches \<open>via\<close>.
\<close>

definition uses_ab :: Edge where
  "uses_ab = (calls_edge ''A'' ''B'')\<lparr>edge_type := ''uses'',
                edge_properties := [''via'' \<mapsto> VStr ''k8s_env'']\<rparr>"

text \<open>A service whose labels carry the key \<open>id\<close>, copied into its properties.\<close>

definition relabelled :: Node where
  "relabelled = (svc ''A'')\<lparr>node_properties := [''id'' \<mapsto> VStr ''x'']\<rparr>"

text \<open>A node with the id of service \<open>A\<close> and another type, name and one property.\<close>

definition retyped :: Node where
  "retyped = \<lparr>node_id = ''service:A'', node_type = ''database'', node_name = ''A2'',
              node_properties = [''port'' \<mapsto> VInt 5432]\<rparr>"

section \<open>Predicates used to state the properties\<close>



section \<open>Ownership resolution (connectors/teams.py)\<close>

datatype error = IndexError

text \<open>
  \<open>s.split(':')[1]\<close>: the text between the first and the second colon, and
  \<open>IndexError\<close> when \<open>s\<close> has no colon.
\<close>

definition split1 :: "string \<Rightarrow> error + string" where
  "split1 s =
     (case dropWhile (\<lambda>c. c \<noteq> CHR '':'') s of
        [] \<Rightarrow> Inl IndexError
      | c # rest \<Rightarrow> Inr (takeWhile (\<lambda>c. c \<noteq> CHR '':'') rest))"

text \<open>
  The lookup \<open>node_map\<close>, a Python dict: its items are kept in the order in which
  their keys were first inserted, and an assignment to a key already present replaces
  the value where the key stands (\<open>AList.update\<close>). For each node the name is
  assigned first, then the id.
\<close>

definition build_node_map :: "Node list \<Rightarrow> (string \<times> string) list" where
  "build_node_map all_nodes =
     fold (\<lambda>node m. AList.update (node_id node) (node_id node)
                      (AList.update (node_name node) (node_id node) m))
          all_nodes []"

text \<open>
  The test of the inner loop, \<open>target in node_name or node_name.endswith(target)\<close>,
  on a key of \<open>node_map\<close>.
\<close>

definition fuzzy_match :: "string \<Rightarrow> string \<times> string \<Rightarrow> bool" where
  "fuzzy_match tgt item = (sublist tgt (fst item) \<or> suffix tgt (fst item))"

text \<open>
  The body of the loop over \<open>self.edges\<close>: the edges appended to
  \<open>resolved_edges\<close> for one edge, or the exception that leaves the function. The inner
  loop stops at the first matching item (\<open>break\<close>); when it finds none, nothing is
  appended.
\<close>

definition resolve_edge :: "(string \<times> string) list \<Rightarrow> Edge \<Rightarrow> error + Edge list" where
  "resolve_edge node_map edge =
     (if edge_type edge = ''owns'' then
        (case map_of node_map (target edge) of
           Some i \<Rightarrow> Inr [edge\<lparr>target := i\<rparr>]
         | None \<Rightarrow>
            (case find (fuzzy_match (target edge)) node_map of
               None \<Rightarrow> Inr []
             | Some item \<Rightarrow>
                (case split1 (source edge) of
                   Inl err \<Rightarrow> Inl err
                 | Inr s \<Rightarrow>
                    (case split1 (snd item) of
                       Inl err \<Rightarrow> Inl err
                     | Inr t \<Rightarrow>
                        Inr [\<lparr>edge_id = ''edge:'' @ s @ ''-owns-'' @ t,
                              edge_type = edge_type edge,
                              source = source edge,
                              target = snd item,
                              edge_properties = edge_properties edge\<rparr>]))))
      else Inr [])"

fun resolve_loop :: "(string \<times> string) list \<Rightarrow> Edge list \<Rightarrow> Edge list \<Rightarrow> error + Edge list" where
  "resolve_loop node_map [] resolved_edges = Inr resolved_edges"
| "resolve_loop node_map (edge # edges) resolved_edges =
     (case resolve_edge node_map edge of
        Inl err \<Rightarrow> Inl err
      | Inr r \<Rightarrow> resolve_loop node_map edges (resolved_edges @ r))"

text \<open>
  \<open>TeamsConnector.resolve_ownership_targets\<close>; the first argument is the connector's
  \<open>self.edges\<close>.
\<close>

definition resolve_ownership_targets :: "Edge list \<Rightarrow> Node list \<Rightarrow> error + Edge list" where
  "resolve_ownership_targets edges all_nodes = resolve_loop (build_node_map all_nodes) edges []"

text \<open>
  The rule of the specification for a target without exact match, in its words: the
  candidates are the nodes whose name contains the target or whose id ends with it, and
  the candidate with the lexicographically smallest id is picked.
\<close>

definition spec_candidates :: "Node list \<Rightarrow> string \<Rightarrow> string list" where
  "spec_candidates all_nodes tgt =
     map node_id (filter (\<lambda>n. sublist tgt (node_name n) \<or> suffix tgt (node_id n)) all_nodes)"

definition spec_fuzzy_pick :: "Node list \<Rightarrow> string \<Rightarrow> string option" where
  "spec_fuzzy_pick all_nodes tgt =
     (case spec_candidates all_nodes tgt of
        [] \<Rightarrow> None
      | c # cs \<Rightarrow> Some (fold min cs c))"

section \<open>Query engine (graph/query.py): dependency closure\<close>

text \<open>
  A relationship is referred to by its position in \<open>g_rels\<close>. Every relationship
  the store creates carries the label \<open>EDGE\<close>, so the label test of the patterns holds
  for all of them. The flag \<open>fwd\<close> tells the direction in which a pattern is walked
  from its bound end: along the arrows for \<open>downstream\<close>, against them for
  \<open>upstream\<close>.
\<close>

definition rel_from :: "bool \<Rightarrow> rel \<Rightarrow> nat" where
  "rel_from fwd r = (if fwd then rel_start r else rel_end r)"

definition rel_to :: "bool \<Rightarrow> rel \<Rightarrow> nat" where
  "rel_to fwd r = (if fwd then rel_end r else rel_start r)"

definition next_rels :: "graph \<Rightarrow> bool \<Rightarrow> nat list \<Rightarrow> nat \<Rightarrow> nat list" where
  "next_rels g fwd used v =
     filter (\<lambda>j. rel_from fwd (g_rels g ! j) = v \<and> j \<notin> set used) [0..<length (g_rels g)]"

text \<open>
  The matches of a variable-length pattern \<open>-[r:EDGE*1..d]->\<close> from the node \<open>v\<close>:
  every sequence of one to \<open>d\<close> relationships, each leading on from the end of the one
  before, in which no relationship occurs twice (a pattern match never binds one
  relationship twice). \<open>used\<close> holds the relationships already on the path.
\<close>

fun var_paths :: "graph \<Rightarrow> bool \<Rightarrow> nat \<Rightarrow> nat list \<Rightarrow> nat \<Rightarrow> nat list list" where
  "var_paths g fwd 0 used v = []"
| "var_paths g fwd (Suc d) used v =
     concat (map (\<lambda>j. [j] # map ((#) j) (var_paths g fwd d (j # used) (rel_to fwd (g_rels g ! j))))
                 (next_rels g fwd used v))"

text \<open>The node at the far end of a non-empty path.\<close>

definition path_end :: "graph \<Rightarrow> bool \<Rightarrow> nat list \<Rightarrow> nat" where
  "path_end g fwd js = rel_to fwd (g_rels g ! last js)"

text \<open>\<open>DISTINCT\<close>: one row for each value, at its first occurrence.\<close>

definition distinct_first :: "'a list \<Rightarrow> 'a list" where
  "distinct_first xs = rev (remdups (rev xs))"

text \<open>
  The query of \<open>downstream\<close> (\<open>fwd\<close>) and of \<open>upstream\<close> (\<open>\<not> fwd\<close>) when no
  \<open>edge_types\<close> are given (\<open>None\<close> or an empty list): \<open>type_filter\<close> is empty and
  the \<open>WHERE\<close> clause holds for every path. The result is the far end nodes of the paths
  of one to ten relationships from the nodes with the id, \<open>WITH DISTINCT\<close>.
\<close>

definition closure_nodes :: "graph \<Rightarrow> bool \<Rightarrow> string \<Rightarrow> nat list" where
  "closure_nodes g fwd nid =
     distinct_first
       (concat (map (\<lambda>s. map (path_end g fwd) (var_paths g fwd 10 [] s)) (match_id g nid)))"

definition downstream :: "graph \<Rightarrow> string \<Rightarrow> props list" where
  "downstream g nid = map (\<lambda>k. g_nodes g ! k) (closure_nodes g True nid)"

definition upstream :: "graph \<Rightarrow> string \<Rightarrow> props list" where
  "upstream g nid = map (\<lambda>k. g_nodes g ! k) (closure_nodes g False nid)"

text \<open>
  Reachability as the specification words it: \<open>js\<close> is a sequence of stored
  relationships, each leading on from the end of the one before, starting at \<open>v\<close>;
  a relationship may occur in it any number of times.
\<close>

fun chain :: "graph \<Rightarrow> bool \<Rightarrow> nat \<Rightarrow> nat list \<Rightarrow> bool" where
  "chain g fwd v [] = True"
| "chain g fwd v (j # js) =
     (j < length (g_rels g) \<and> rel_from fwd (g_rels g ! j) = v
      \<and> chain g fwd (rel_to fwd (g_rels g ! j)) js)"

definition reachable_within :: "graph \<Rightarrow> bool \<Rightarrow> nat \<Rightarrow> nat \<Rightarrow> nat \<Rightarrow> bool" where
  "reachable_within g fwd d v w =
     (\<exists>js. js \<noteq> [] \<and> length js \<le> d \<and> chain g fwd v js \<and> path_end g fwd js = w)"

text \<open>
  Three services with \<open>calls\<close> edges \<open>A \<rightarrow> B \<rightarrow> C\<close> and the team \<open>T\<close> owning
  \<open>A\<close>.
\<close>

definition store_abc :: graph where
  "store_abc =
     bulk_upsert_edges
       (bulk_upsert_nodes empty_graph [svc ''A'', svc ''B'', svc ''C'', team_node ''T'' team_t])
       [calls_edge ''A'' ''B'', calls_edge ''B'' ''C'', owns_edge ''T'' ''service:A'']"

text \<open>Two services calling each other.\<close>

definition store_cycle :: graph where
  "store_cycle =
     bulk_upsert_edges (bulk_upsert_nodes empty_graph [svc ''A'', svc ''B''])
       [calls_edge ''A'' ''B'', calls_edge ''B'' ''A'']"

text \<open>The \<open>id\<close> entries of a list of returned nodes.\<close>

definition node_ids :: "props list \<Rightarrow> val option list" where
  "node_ids ns = map (\<lambda>m. m ''id'') ns"

section \<open>Query engine (graph/query.py): owner lookup and blast radius\<close>

text \<open>
  The test of a stored property against a query value: \<open>null\<close> is equal to nothing.
\<close>

definition prop_is :: "props \<Rightarrow> string \<Rightarrow> val \<Rightarrow> bool" where
  "prop_is m k v = (v \<noteq> VNone \<and> m k = Some v)"

text \<open>
  The rows of the query of \<open>get_owner\<close>, one for each relationship that matches
  \<open>(team {type: 'team'})-[r:EDGE {type: 'owns'}]->(target {id: $node_id})\<close>. The
  database does not fix the order of the rows; the model takes them in the order of the
  store.
\<close>

definition owner_rows :: "graph \<Rightarrow> val \<Rightarrow> props list" where
  "owner_rows g nid =
     map (\<lambda>r. g_nodes g ! rel_start r)
       (filter (\<lambda>r. prop_is (g_nodes g ! rel_start r) ''type'' (VStr ''team'')
                   \<and> prop_is (rel_props r) ''type'' (VStr ''owns'')
                   \<and> prop_is (g_nodes g ! rel_end r) ''id'' nid)
               (g_rels g))"

text \<open>
  \<open>QueryEngine.get_owner\<close>: \<open>result.single()\<close> gives the first record, or
  \<open>None\<close> when there is none; further records only make the driver emit a warning.
\<close>

definition get_owner :: "graph \<Rightarrow> val \<Rightarrow> props option" where
  "get_owner g nid = (case owner_rows g nid of [] \<Rightarrow> None | team # others \<Rightarrow> Some team)"

text \<open>\<open>n.get("id")\<close>.\<close>

definition get_id :: "props \<Rightarrow> val" where
  "get_id n = (case n ''id'' of None \<Rightarrow> VNone | Some v \<Rightarrow> v)"

text \<open>
  Membership in a Python set goes by \<open>==\<close>, which holds \<open>True\<close> equal to \<open>1\<close>
  and \<open>False\<close> to \<open>0\<close>; \<open>py_key\<close> gives one representative of each class of
  equal values. \<open>set_add\<close> is \<open>s.add(x)\<close> on a set kept in insertion order.
\<close>

definition py_key :: "val \<Rightarrow> val" where
  "py_key v = (case v of VBool b \<Rightarrow> VInt (if b then 1 else 0) | _ \<Rightarrow> v)"

definition set_add :: "val list \<Rightarrow> val \<Rightarrow> val list" where
  "set_add s x = (if py_key x \<in> py_key ` set s then s else s @ [x])"

record BlastRadiusResult =
  br_node :: props
  br_upstream :: "props list"
  br_downstream :: "props list"
  affected_teams :: "props list"
  total_affected :: nat

text \<open>
  \<open>QueryEngine.blast_radius\<close>. Python does not fix the order in which the loop over
  \<open>all_affected_ids\<close> visits the set; the model visits it in insertion order, which
  only the order of \<open>affected_teams\<close> depends on.
\<close>

definition blast_radius :: "graph \<Rightarrow> string \<Rightarrow> BlastRadiusResult option" where
  "blast_radius g nid =
     (case get_node g nid of
        None \<Rightarrow> None
      | Some node \<Rightarrow>
          (let up = upstream g nid;
               down = downstream g nid;
               all_affected_ids = set_add (fold (\<lambda>n s. set_add s (get_id n)) (up @ down) []) (VStr nid);
               teams = fold (\<lambda>affected_id ts.
                               case get_owner g affected_id of
                                 None \<Rightarrow> ts
                               | Some team \<Rightarrow> if team \<in> set ts then ts else ts @ [team])
                            all_affected_ids []
           in Some \<lparr>br_node = node, br_upstream = up, br_downstream = down,
                     affected_teams = teams, total_affected = length all_affected_ids\<rparr>))"

text \<open>
  Invariants of a store: every relationship ends in stored nodes, and the ids of the
  nodes are strings, no two alike.
\<close>

definition wf_graph :: "graph \<Rightarrow> bool" where
  "wf_graph g =
     (\<forall>r \<in> set (g_rels g). rel_start r < length (g_nodes g) \<and> rel_end r < length (g_nodes g))"

definition unique_ids :: "graph \<Rightarrow> bool" where
  "unique_ids g =
     (\<forall>j < length (g_nodes g).
        (\<exists>i. (g_nodes g ! j) ''id'' = Some (VStr i))
        \<and> (\<forall>k < length (g_nodes g). (g_nodes g ! j) ''id'' = (g_nodes g ! k) ''id'' \<longrightarrow> j = k))"

definition team_u :: team where
  "team_u = \<lparr>team_name = Some ''U'', lead = VStr ''uma'', slack_channel = VNone,
             pagerduty_schedule = VNone, owns = [''service:A'']\<rparr>"

text \<open>One service owned by two teams.\<close>

definition store_two_owners :: graph where
  "store_two_owners =
     bulk_upsert_edges
       (bulk_upsert_nodes empty_graph [svc ''A'', team_node ''T'' team_t, team_node ''U'' team_u])
       [owns_edge ''T'' ''service:A'', owns_edge ''U'' ''service:A'']"

section \<open>Compose connector (connectors/docker_compose.py)\<close>

text \<open>
  \<open>str.lower()\<close> on the ASCII letters; the keywords tested below are ASCII, and no
  other character lowers to a letter of one of them.
\<close>

definition lower_char :: "char \<Rightarrow> char" where
  "lower_char c =
     (case map_of (zip ''ABCDEFGHIJKLMNOPQRSTUVWXYZ'' ''abcdefghijklmnopqrstuvwxyz'') c of
        None \<Rightarrow> c
      | Some l \<Rightarrow> l)"

definition lower :: "string \<Rightarrow> string" where
  "lower s = map lower_char s"

text \<open>
  The configuration of one service: \<open>config.get("labels", {})\<close>,
  \<open>config.get("image", "")\<close>, the names of \<open>depends_on\<close> (the keys when it is a
  mapping) and \<open>config.get("environment", [])\<close>, a mapping or a list of
  \<open>KEY=value\<close> strings.
\<close>

datatype environment = EnvDict "(string \<times> string) list" | EnvList "string list"

record service =
  labels :: props
  image :: string
  depends_on :: "string list"
  environment :: environment

text \<open>The default \<open>{}\<close> of \<open>services.get(name, {})\<close>.\<close>

definition empty_service :: service where
  "empty_service = \<lparr>labels = Map.empty, image = [], depends_on = [], environment = EnvList []\<rparr>"

definition DATABASE_IMAGES :: "string list" where
  "DATABASE_IMAGES = [''postgres'', ''mysql'', ''mariadb'', ''mongodb'', ''cassandra'']"

definition CACHE_IMAGES :: "string list" where
  "CACHE_IMAGES = [''redis'', ''memcached'']"

definition infer_node_type :: "string \<Rightarrow> service \<Rightarrow> string" where
  "infer_node_type name config =
     (if labels config ''type'' = Some (VStr ''database'') then ''database''
      else if labels config ''type'' = Some (VStr ''cache'') then ''cache''
      else if list_ex (\<lambda>db_image. sublist db_image (lower (image config))) DATABASE_IMAGES
        then ''database''
      else if list_ex (\<lambda>cache_image. sublist cache_image (lower (image config))) CACHE_IMAGES
        then ''cache''
      else if list_ex (\<lambda>x. sublist x (lower name)) [''db'', ''database'', ''postgres'', ''mysql'']
        then ''database''
      else if list_ex (\<lambda>x. sublist x (lower name)) [''redis'', ''cache'', ''memcached'']
        then ''cache''
      else ''service'')"

definition infer_edge_type :: "string \<Rightarrow> string" where
  "infer_edge_type target_type =
     (if target_type = ''database'' then ''reads_from''
      else if target_type = ''cache'' then ''uses''
      else ''calls'')"

text \<open>
  \<open>_parse_environment\<close>: a mapping is taken as it is; of a list, the items holding
  \<open>=\<close> are split at the first one, a later item replacing the value of a key
  already seen.
\<close>

definition parse_environment :: "environment \<Rightarrow> (string \<times> string) list" where
  "parse_environment env =
     (case env of
        EnvDict d \<Rightarrow> d
      | EnvList items \<Rightarrow>
          fold (\<lambda>item result.
                  if CHR ''='' \<in> set item
                  then AList.update (takeWhile (\<lambda>c. c \<noteq> CHR ''='') item)
                                    (tl (dropWhile (\<lambda>c. c \<noteq> CHR ''='') item)) result
                  else result)
               items [])"

text \<open>
  \<open>re.search\<close> for a pattern made of a literal, a group \<open>([^...]+)\<close> over a class
  of characters, and what must follow the group: the leftmost place where the literal
  stands, the longest run of characters of the class after it is not empty and
  \<open>follows\<close> holds of the rest; the result is the group. A shorter run cannot match
  where the longest does not, as the character after it is of the class and none of the
  patterns below lets such a character follow the group.
\<close>

fun re_search :: "string \<Rightarrow> (char \<Rightarrow> bool) \<Rightarrow> (string \<Rightarrow> bool) \<Rightarrow> string \<Rightarrow> string option" where
  "re_search lit cls follows [] = None"
| "re_search lit cls follows (c # s) =
     (if prefix lit (c # s)
         \<and> takeWhile cls (drop (length lit) (c # s)) \<noteq> []
         \<and> follows (dropWhile cls (drop (length lit) (c # s)))
      then Some (takeWhile cls (drop (length lit) (c # s)))
      else re_search lit cls follows s)"

definition starts_with_any :: "string \<Rightarrow> string \<Rightarrow> bool" where
  "starts_with_any cs s = (case s of [] \<Rightarrow> False | c # rest \<Rightarrow> c \<in> set cs)"

definition first_match :: "string option list \<Rightarrow> string option" where
  "first_match ms = (case filter (\<lambda>m. m \<noteq> None) ms of [] \<Rightarrow> None | m # rest \<Rightarrow> m)"

text \<open>
  \<open>_extract_service_from_url\<close>, the patterns \<open>://([^:/@]+):\<close>,
  \<open>://([^:/@]+)/\<close>, \<open>@([^:/@]+):\<close> and \<open>http://([^:/@]+)\<close> tried in this order.
\<close>

definition extract_service_from_url :: "string \<Rightarrow> string option" where
  "extract_service_from_url url =
     first_match
       [re_search ''://'' (\<lambda>c. c \<notin> set '':/@'') (starts_with_any '':'') url,
        re_search ''://'' (\<lambda>c. c \<notin> set '':/@'') (starts_with_any ''/'') url,
        re_search ''@'' (\<lambda>c. c \<notin> set '':/@'') (starts_with_any '':'') url,
        re_search ''http://'' (\<lambda>c. c \<notin> set '':/@'') (\<lambda>rest. True) url]"

definition dep_edge :: "string \<Rightarrow> string \<Rightarrow> string \<Rightarrow> string \<Rightarrow> Edge" where
  "dep_edge name source_id dep dep_type =
     \<lparr>edge_id = ''edge:'' @ name @ ''-'' @ infer_edge_type dep_type @ ''-'' @ dep,
      edge_type = infer_edge_type dep_type,
      source = source_id,
      target = dep_type @ '':'' @ dep,
      edge_properties = Map.empty\<rparr>"

definition service_of :: "(string \<times> service) list \<Rightarrow> string \<Rightarrow> service" where
  "service_of services name = (case map_of services name of None \<Rightarrow> empty_service | Some c \<Rightarrow> c)"

text \<open>
  The second loop of \<open>DockerComposeConnector.parse\<close>, which derives the edges, for one
  service: first the declared dependencies, then the environment entries whose key holds
  \<open>_URL\<close>, whose value is not empty and names a service of the file other than the
  source.
\<close>

definition compose_service_edges ::
    "(string \<times> service) list \<Rightarrow> string \<times> service \<Rightarrow> Edge list \<Rightarrow> Edge list" where
  "compose_service_edges services item edges =
     (let name = fst item; config = snd item;
          source_id = infer_node_type name config @ '':'' @ name;
          edges1 = fold (\<lambda>dep es.
                          add_edge es (dep_edge name source_id dep
                                         (infer_node_type dep (service_of services dep))))
                        (depends_on config) edges
      in fold (\<lambda>kv es.
                 if sublist ''_URL'' (fst kv) \<and> snd kv \<noteq> [] then
                   (case extract_service_from_url (snd kv) of
                      None \<Rightarrow> es
                    | Some target_name \<Rightarrow>
                        if target_name \<noteq> [] \<and> map_of services target_name \<noteq> None
                           \<and> infer_node_type target_name (service_of services target_name)
                                @ '':'' @ target_name \<noteq> source_id
                        then add_edge es (dep_edge name source_id target_name
                               (infer_node_type target_name (service_of services target_name)))
                        else es)
                 else es)
              (parse_environment (environment config)) edges1)"

definition compose_edges :: "(string \<times> service) list \<Rightarrow> Edge list" where
  "compose_edges services = fold (compose_service_edges services) services []"

section \<open>Cluster-manifest connector (connectors/kubernetes.py)\<close>

text \<open>
  \<open>_extract_service_from_k8s_url\<close>, the patterns \<open>http://([^.]+)\.\<close> and
  \<open>://([^:/.]+)[.:]\<close>.
\<close>

definition extract_service_from_k8s_url :: "string \<Rightarrow> string option" where
  "extract_service_from_k8s_url url =
     first_match
       [re_search ''http://'' (\<lambda>c. c \<noteq> CHR ''.'') (starts_with_any ''.'') url,
        re_search ''://'' (\<lambda>c. c \<notin> set '':/.'') (starts_with_any ''.:'') url]"

text \<open>
  The last loop of \<open>_parse_deployment\<close> on the connector's edges, for the deployment
  \<open>name\<close> and the items of \<open>env_vars\<close>.
\<close>

definition k8s_deployment_edges :: "string \<Rightarrow> (string \<times> string) list \<Rightarrow> Edge list \<Rightarrow> Edge list" where
  "k8s_deployment_edges name env_vars edges =
     fold (\<lambda>kv es.
             if sublist ''_URL'' (fst kv) \<and> snd kv \<noteq> [] then
               (case extract_service_from_k8s_url (snd kv) of
                  None \<Rightarrow> es
                | Some target_name \<Rightarrow>
                    if target_name \<noteq> [] \<and> target_name \<noteq> name
                    then add_edge es
                           \<lparr>edge_id = ''edge:'' @ name @ ''-calls-'' @ target_name,
                            edge_type = ''calls'',
                            source = ''service:'' @ name,
                            target = ''service:'' @ target_name,
                            edge_properties = [''via'' \<mapsto> VStr ''k8s_env'']\<rparr>
                    else es)
             else es)
          env_vars edges"

text \<open>
  The collection of \<open>env_vars\<close> from the \<open>env\<close> list of the main container; a missing
  or empty name or value is the empty string.
\<close>

definition k8s_env_vars :: "(string \<times> string) list \<Rightarrow> (string \<times> string) list" where
  "k8s_env_vars env =
     fold (\<lambda>e vars. if fst e \<noteq> [] \<and> snd e \<noteq> [] then AList.update (fst e) (snd e) vars else vars)
          env []"

text \<open>A compose file and a deployment with the same database endpoint.\<close>

definition compose_example :: "(string \<times> service) list" where
  "compose_example =
     [(''api'', empty_service\<lparr>image := ''acme/api:1'', depends_on := [''sessions''],
          environment := EnvList [''DATABASE_URL=postgres://postgres:5432/app'', ''DEBUG=1'']\<rparr>),
      (''postgres'', empty_service\<lparr>image := ''postgres:15''\<rparr>),
      (''sessions'', empty_service\<lparr>image := ''redis:7''\<rparr>)]"

definition k8s_example_env :: "(string \<times> string) list" where
  "k8s_example_env = [(''DATABASE_URL'', ''postgres://postgres.default:5432/app'')]"

text \<open>
  The type of an edge follows the inferred type of its target: the target id is
  \<open><type>:<name>\<close> for a name whose inferred type is \<open><type>\<close>, and the edge type
  is \<open>reads_from\<close> for a database, \<open>uses\<close> for a cache and \<open>calls\<close> otherwise.
\<close>

definition typed_by_target :: "(string \<times> service) list \<Rightarrow> Edge \<Rightarrow> bool" where
  "typed_by_target services e =
     (\<exists>dep ty. ty = infer_node_type dep (service_of services dep)
        \<and> target e = ty @ '':'' @ dep
        \<and> (ty = ''database'' \<longrightarrow> edge_type e = ''reads_from'')
        \<and> (ty = ''cache'' \<longrightarrow> edge_type e = ''uses'')
        \<and> (ty \<noteq> ''database'' \<and> ty \<noteq> ''cache'' \<longrightarrow> edge_type e = ''calls''))"

section \<open>Query engine (graph/query.py): shortest path\<close>

text \<open>
  The nodes joined to \<open>v\<close> by one relationship: the pattern \<open>-[*..15]-\<close> has no
  arrow and no type, so a relationship is walked from either end.
\<close>

definition neighbours :: "graph \<Rightarrow> nat \<Rightarrow> nat list" where
  "neighbours g v =
     concat (map (\<lambda>r. (if rel_start r = v then [rel_end r] else [])
                     @ (if rel_end r = v then [rel_start r] else []))
                 (g_rels g))"

text \<open>
  The node sequences of the shortest paths between two different nodes \<open>s\<close> and
  \<open>t\<close>, of one to fifteen relationships. The paths from \<open>s\<close> that visit no node twice
  are extended by one relationship at a time; the first length at which some of them end
  in \<open>t\<close> gives the shortest paths, all of them.
\<close>

definition extend_paths :: "graph \<Rightarrow> nat list list \<Rightarrow> nat list list" where
  "extend_paths g ps =
     concat (map (\<lambda>p. map (\<lambda>w. p @ [w]) (filter (\<lambda>w. w \<notin> set p) (neighbours g (last p)))) ps)"

fun shortest_from :: "graph \<Rightarrow> nat \<Rightarrow> nat \<Rightarrow> nat list list \<Rightarrow> nat list list" where
  "shortest_from g 0 t ps = []"
| "shortest_from g (Suc d) t ps =
     (if filter (\<lambda>p. last p = t) (extend_paths g ps) \<noteq> []
      then filter (\<lambda>p. last p = t) (extend_paths g ps)
      else shortest_from g d t (extend_paths g ps))"

definition shortest_paths :: "graph \<Rightarrow> nat \<Rightarrow> nat \<Rightarrow> nat list list" where
  "shortest_paths g s t = shortest_from g 15 t [[s]]"

datatype db_error = ShortestPathCommonNodes

text \<open>
  \<open>QueryEngine.path\<close>. The first \<open>MATCH\<close> gives a row for each pair of nodes with
  the two ids. For a pair of different nodes \<open>shortestPath\<close> binds one shortest path
  of at most fifteen relationships, or gives no row when there is none; which of several
  shortest paths it binds is the database's choice, the parameter \<open>pick\<close>. For a
  pair made of one node twice the database raises an error, or gives no row when its
  setting \<open>forbid_shortestpath_common_nodes\<close> (the parameter \<open>forbid_common\<close>, true by
  default) is off. The result is the nodes of the paths, \<open>DISTINCT\<close>.
\<close>

definition path ::
    "bool \<Rightarrow> (nat list list \<Rightarrow> nat list) \<Rightarrow> graph \<Rightarrow> string \<Rightarrow> string \<Rightarrow> db_error + props list" where
  "path forbid_common pick g from_id to_id =
     (if forbid_common
         \<and> list_ex (\<lambda>st. fst st = snd st) (List.product (match_id g from_id) (match_id g to_id))
      then Inl ShortestPathCommonNodes
      else Inr (map (\<lambda>k. g_nodes g ! k)
             (distinct_first
               (concat (map (\<lambda>st. if fst st = snd st then []
                                   else (case shortest_paths g (fst st) (snd st) of
                                           [] \<Rightarrow> []
                                         | p # ps \<Rightarrow> pick (p # ps)))
                            (List.product (match_id g from_id) (match_id g to_id)))))))"

text \<open>
  Walks as the specification counts hops: a sequence of nodes, each joined to the next by
  a relationship in either direction; nodes may repeat.
\<close>

fun uwalk :: "graph \<Rightarrow> nat list \<Rightarrow> bool" where
  "uwalk g [] = False"
| "uwalk g [v] = True"
| "uwalk g (u # v # p) = (v \<in> set (neighbours g u) \<and> uwalk g (v # p))"

definition walk_between :: "graph \<Rightarrow> nat \<Rightarrow> nat \<Rightarrow> nat list \<Rightarrow> bool" where
  "walk_between g s t p = (uwalk g p \<and> hd p = s \<and> last p = t)"

definition joined_within :: "graph \<Rightarrow> nat \<Rightarrow> nat \<Rightarrow> nat \<Rightarrow> bool" where
  "joined_within g d s t = (\<exists>p. walk_between g s t p \<and> length p \<le> Suc d)"

definition valid_choice :: "(nat list list \<Rightarrow> nat list) \<Rightarrow> bool" where
  "valid_choice pick = (\<forall>ps. ps \<noteq> [] \<longrightarrow> pick ps \<in> set ps)"

text \<open>Four services in a diamond: \<open>A\<close> calls \<open>C\<close> and \<open>B\<close>, both call \<open>D\<close>.\<close>

definition store_diamond :: graph where
  "store_diamond =
     bulk_upsert_edges
       (bulk_upsert_nodes empty_graph [svc ''A'', svc ''B'', svc ''C'', svc ''D''])
       [calls_edge ''A'' ''C'', calls_edge ''A'' ''B'', calls_edge ''B'' ''D'', calls_edge ''C'' ''D'']"

text \<open>Two services and no edge.\<close>

definition store_apart :: graph where
  "store_apart = bulk_upsert_nodes empty_graph [svc ''A'', svc ''B'']"

text \<open>
  The paths of \<open>k\<close> relationships from \<open>s\<close> that visit no node twice, and those of
  them that end in \<open>t\<close>.
\<close>

definition simple_from :: "graph \<Rightarrow> nat \<Rightarrow> nat \<Rightarrow> nat list set" where
  "simple_from g s k = {p. uwalk g p \<and> hd p = s \<and> distinct p \<and> length p = Suc k}"

definition hits :: "graph \<Rightarrow> nat \<Rightarrow> nat \<Rightarrow> nat \<Rightarrow> nat list set" where
  "hits g s t k = {p \<in> simple_from g s k. last p = t}"

section \<open>Verified properties\<close>

subsection \<open>Store helpers\<close>

lemma product_Nil2: "List.product xs [] = []"
  by (induction xs) auto

lemma match_id_Nil_iff: "match_id g i = [] \<longleftrightarrow> (\<forall>m \<in> set (g_nodes g). \<not> has_id i m)"
  unfolding match_id_def filter_empty_conv
  by (metis atLeastLessThan_iff in_set_conv_nth set_upt zero_le)

lemma upsert_edge_unmatched:
  "match_id g (source e) = [] \<or> match_id g (target e) = [] \<Longrightarrow> upsert_edge g e = g"
  by (auto simp: upsert_edge_def product_Nil2)

lemma bulk_unmatched:
  "\<forall>e \<in> set es. match_id g (source e) = [] \<or> match_id g (target e) = [] \<Longrightarrow> bulk_upsert_edges g es = g"
  unfolding bulk_upsert_edges_def
  by (induction es) (auto simp: upsert_edge_unmatched)

lemma merge_props_idem: "merge_props (merge_props m ps) ps = merge_props m ps"
  by (auto simp: merge_props_def fun_eq_iff split: option.splits val.splits)

lemma set_node_idem: "set_node n (set_node n m) = set_node n m"
  by (auto simp: set_node_def merge_props_def fun_eq_iff split: option.splits val.splits)

lemma has_id_set_node:
  "node_properties n ''id'' = None \<or> node_properties n ''id'' = Some (VStr (node_id n)) \<Longrightarrow>
   has_id i (set_node n m) = (if node_properties n ''id'' = None then has_id i m else i = node_id n)"
  by (auto simp: has_id_def set_node_def merge_props_def)

lemma upsert_node_idem:
  assumes "node_properties n ''id'' = None \<or> node_properties n ''id'' = Some (VStr (node_id n))"
  shows "upsert_node (upsert_node g n) n = upsert_node g n"
proof (cases "\<exists>m \<in> set (g_nodes g). has_id (node_id n) m")
  case True
  have keep: "has_id (node_id n) (set_node n m)" if "has_id (node_id n) m" for m
    using that assms by (auto simp: has_id_set_node)
  have ex: "\<exists>m \<in> set (g_nodes (upsert_node g n)). has_id (node_id n) m"
    using True keep by (auto simp: upsert_node_def)
  show ?thesis
    using True ex keep by (auto simp: upsert_node_def set_node_idem)
next
  case False
  have new: "has_id (node_id n) (set_node n (Map.empty(''id'' \<mapsto> VStr (node_id n))))"
    using assms by (auto simp: has_id_set_node) (simp add: has_id_def)
  have same: "map (\<lambda>m. if has_id (node_id n) m then set_node n m else m) (g_nodes g) = g_nodes g"
    using False by (intro map_idI) auto
  show ?thesis
    using False new same by (auto simp: upsert_node_def set_node_idem)
qed


lemma add_edge_target: "e \<in> set (add_edge es x) \<Longrightarrow> e \<in> set es \<or> e = x"
  by (auto simp: add_edge_def split: option.splits)

lemma fold_add_edge_target:
  "e \<in> set (fold (\<lambda>owned_item es. add_edge es (owns_edge name owned_item)) os es0) \<Longrightarrow>
   e \<in> set es0 \<or> target e \<in> set os"
proof (induction os arbitrary: es0)
  case Nil
  then show ?case by simp
next
  case (Cons a os)
  from Cons.IH[OF Cons.prems[simplified]] show ?case
    by (auto dest!: add_edge_target simp: owns_edge_def)
qed

lemma teams_step_target:
  "e \<in> set (snd (teams_step t st)) \<Longrightarrow> e \<in> set (snd st) \<or> target e \<in> set (owns t)"
  by (auto simp: teams_step_def split: option.splits if_splits dest: fold_add_edge_target)

lemma fold_teams_step_target:
  "e \<in> set (snd (fold teams_step ts st)) \<Longrightarrow> e \<in> set (snd st) \<or> (\<exists>t \<in> set ts. target e \<in> set (owns t))"
proof (induction ts arbitrary: st)
  case Nil
  then show ?case by simp
next
  case (Cons t ts)
  from Cons.IH[OF Cons.prems[simplified]] show ?case
    by (auto dest: teams_step_target)
qed

lemma teams_parse_target:
  "e \<in> set (snd (teams_parse ts)) \<Longrightarrow> \<exists>t \<in> set ts. target e \<in> set (owns t)"
  using fold_teams_step_target[of e ts "([], [])"] by (simp add: teams_parse_def)

subsection \<open>Example data, evaluated\<close>

lemmas store_eval = bulk_upsert_nodes_def bulk_upsert_edges_def upsert_node_def upsert_edge_def
  empty_graph_def set_node_def set_rel_def has_id_def merge_props_def match_id_def merge_rel_def
  rel_matches_def svc_def calls_edge_def

lemma store_ab_nodes:
  "g_nodes store_ab =
     [[''id'' \<mapsto> VStr ''service:A'', ''type'' \<mapsto> VStr ''service'', ''name'' \<mapsto> VStr ''A''],
      [''id'' \<mapsto> VStr ''service:B'', ''type'' \<mapsto> VStr ''service'', ''name'' \<mapsto> VStr ''B'']]"
  by (simp add: store_ab_def store_eval fun_eq_iff)

lemma store_ab_rels:
  "map rel_start (g_rels store_ab) = [0] \<and> map rel_end (g_rels store_ab) = [1]"
  by (simp add: store_ab_def store_eval)

lemma teams_parse_t:
  "teams_parse [team_t] = ([team_node ''T'' team_t], [owns_edge ''T'' ''A''])"
  by (simp add: teams_parse_def teams_step_def team_t_def add_edge_def)

lemma nodes_after_t:
  "g_nodes (bulk_upsert_nodes store_ab [team_node ''T'' team_t]) = g_nodes store_ab @
     [[''id'' \<mapsto> VStr ''team:T'', ''type'' \<mapsto> VStr ''team'', ''name'' \<mapsto> VStr ''T'', ''lead'' \<mapsto> VStr ''lee'']]"
  by (simp add: store_ab_nodes bulk_upsert_nodes_def upsert_node_def team_node_def team_t_def has_id_def
      set_node_def merge_props_def fun_eq_iff)

subsection \<open>Edges with a missing end node\<close>

text \<open>
  C10. \<open>upsert_edge\<close> on an edge whose source id or target id matches no stored node
  leaves the store as it was: no relationship is created and nothing is raised. The
  roster step of the load upserts the raw \<open>owns\<close> edges as parsed, so when no declared
  ownership target is the id of a stored node, the store after the step is the store
  after the node upserts alone: every ownership edge is discarded.
\<close>

theorem upsert_edge_dangling_noop:
  "((\<forall>m \<in> set (g_nodes g). \<not> has_id (source e) m) \<or> (\<forall>m \<in> set (g_nodes g). \<not> has_id (target e) m)
      \<longrightarrow> upsert_edge g e = g)
   \<and> ((\<forall>t \<in> set ts. \<forall>owned \<in> set (owns t).
          \<forall>m \<in> set (g_nodes (bulk_upsert_nodes g (fst (teams_parse ts)))). \<not> has_id owned m)
      \<longrightarrow> load_teams g ts = bulk_upsert_nodes g (fst (teams_parse ts)))"
proof (intro conjI impI)
  assume "(\<forall>m \<in> set (g_nodes g). \<not> has_id (source e) m) \<or> (\<forall>m \<in> set (g_nodes g). \<not> has_id (target e) m)"
  then show "upsert_edge g e = g"
    by (intro upsert_edge_unmatched) (simp add: match_id_Nil_iff)
next
  let ?g = "bulk_upsert_nodes g (fst (teams_parse ts))"
  assume h: "\<forall>t \<in> set ts. \<forall>owned \<in> set (owns t). \<forall>m \<in> set (g_nodes ?g). \<not> has_id owned m"
  have "\<forall>e \<in> set (snd (teams_parse ts)). match_id ?g (source e) = [] \<or> match_id ?g (target e) = []"
    using h teams_parse_target by (fastforce simp: match_id_Nil_iff)
  then show "load_teams g ts = ?g"
    unfolding load_teams_def by (rule bulk_unmatched)
qed

theorem upsert_edge_dangling_noop_witness:
  "snd (teams_parse [team_t]) = [owns_edge ''T'' ''A'']
   \<and> upsert_edge store_ab (owns_edge ''T'' ''A'') = store_ab
   \<and> load_teams store_ab [team_t] = bulk_upsert_nodes store_ab (fst (teams_parse [team_t]))"
proof -
  have h1: "\<forall>m \<in> set (g_nodes store_ab). \<not> has_id (target (owns_edge ''T'' ''A'')) m"
    by (simp add: store_ab_nodes has_id_def owns_edge_def)
  have h2: "\<forall>t \<in> set [team_t]. \<forall>owned \<in> set (owns t).
          \<forall>m \<in> set (g_nodes (bulk_upsert_nodes store_ab (fst (teams_parse [team_t])))). \<not> has_id owned m"
    by (simp add: teams_parse_t nodes_after_t store_ab_nodes has_id_def) (simp add: team_t_def)
  show ?thesis
    using upsert_edge_dangling_noop[of store_ab "owns_edge ''T'' ''A''" "[team_t]"] h1 h2
    by (simp add: teams_parse_t)
qed

subsection \<open>Upserting an edge that exists\<close>

lemma match_id_store_ab:
  "match_id store_ab ''service:A'' = [0]" "match_id store_ab ''service:B'' = [Suc 0]"
  by (simp_all add: match_id_def store_ab_nodes has_id_def)

lemma store_ab_rel0:
  "g_rels store_ab = [\<lparr>rel_start = 0, rel_end = Suc 0,
      rel_props = [''id'' \<mapsto> VStr ''edge:A-calls-B'', ''type'' \<mapsto> VStr ''calls'']\<rparr>]"
  by (simp add: store_ab_def store_eval fun_eq_iff)

lemma merge_rel_existing:
  "\<exists>r \<in> set rs. rel_matches e s t r \<Longrightarrow>
   merge_rel e (s, t) rs = map (\<lambda>r. if rel_matches e s t r then r\<lparr>rel_props := set_rel e (rel_props r)\<rparr> else r) rs"
  by (simp add: merge_rel_def)

lemma upsert_edge_unique:
  "match_id g (source e) = [s] \<Longrightarrow> match_id g (target e) = [t] \<Longrightarrow>
   upsert_edge g e = g\<lparr>g_rels := merge_rel e (s, t) (g_rels g)\<rparr>"
  by (simp add: upsert_edge_def)

text \<open>
  C3 (as amended). Within a connector's batch, \<open>_add_edge\<close> is first-write-wins: an
  edge whose id is already in the batch leaves the batch as it was. In the store,
  \<open>upsert_edge\<close> on an edge whose id already exists between its two end nodes (each id
  held by one node) creates no relationship and keeps the end nodes, but it is not a
  no-op: the stored type becomes the incoming type, every incoming property is written
  (a null value removes the key), and the other stored properties stay, as for
  \<open>upsert_node\<close>. The other relationships are untouched.
\<close>

theorem upsert_edge_existing_overwrites:
  assumes "match_id g (source e) = [s]" and "match_id g (target e) = [t]"
    and "k < length (g_rels g)" and "rel_matches e s t (g_rels g ! k)"
  shows "g_nodes (upsert_edge g e) = g_nodes g
    \<and> length (g_rels (upsert_edge g e)) = length (g_rels g)
    \<and> rel_start (g_rels (upsert_edge g e) ! k) = s
    \<and> rel_end (g_rels (upsert_edge g e) ! k) = t
    \<and> (edge_properties e ''type'' = None \<longrightarrow>
         rel_props (g_rels (upsert_edge g e) ! k) ''type'' = Some (VStr (edge_type e)))
    \<and> (\<forall>key v. edge_properties e key = Some v \<longrightarrow>
         rel_props (g_rels (upsert_edge g e) ! k) key = (if v = VNone then None else Some v))
    \<and> (\<forall>key. edge_properties e key = None \<and> key \<noteq> ''type'' \<longrightarrow>
         rel_props (g_rels (upsert_edge g e) ! k) key = rel_props (g_rels g ! k) key)
    \<and> (\<forall>j < length (g_rels g). \<not> rel_matches e s t (g_rels g ! j) \<longrightarrow>
         g_rels (upsert_edge g e) ! j = g_rels g ! j)
    \<and> ((\<exists>x \<in> set es. edge_id x = edge_id e) \<longrightarrow> add_edge es e = es)"
proof -
  have ex: "\<exists>r \<in> set (g_rels g). rel_matches e s t r"
    using assms(3,4) nth_mem by blast
  have rels: "g_rels (upsert_edge g e) =
      map (\<lambda>r. if rel_matches e s t r then r\<lparr>rel_props := set_rel e (rel_props r)\<rparr> else r) (g_rels g)"
    using upsert_edge_unique[OF assms(1,2)] merge_rel_existing[OF ex] by simp
  have nodes: "g_nodes (upsert_edge g e) = g_nodes g"
    by (simp add: upsert_edge_def)
  have at_k: "g_rels (upsert_edge g e) ! k = (g_rels g ! k)\<lparr>rel_props := set_rel e (rel_props (g_rels g ! k))\<rparr>"
    using assms(3,4) by (simp add: rels)
  have ends: "rel_start (g_rels g ! k) = s" "rel_end (g_rels g ! k) = t"
    using assms(4) by (simp_all add: rel_matches_def)
  have batch: "(\<exists>x \<in> set es. edge_id x = edge_id e) \<longrightarrow> add_edge es e = es"
    by (auto simp: add_edge_def find_None_iff split: option.splits)
  have pk: "rel_props (g_rels (upsert_edge g e) ! k) = set_rel e (rel_props (g_rels g ! k))"
    and sk: "rel_start (g_rels (upsert_edge g e) ! k) = s"
    and tk: "rel_end (g_rels (upsert_edge g e) ! k) = t"
    using ends by (simp_all add: at_k)
  have len: "length (g_rels (upsert_edge g e)) = length (g_rels g)"
    by (simp add: rels)
  have other: "\<forall>j < length (g_rels g). \<not> rel_matches e s t (g_rels g ! j) \<longrightarrow>
         g_rels (upsert_edge g e) ! j = g_rels g ! j"
    by (simp add: rels)
  have ty: "edge_properties e ''type'' = None \<longrightarrow>
         rel_props (g_rels (upsert_edge g e) ! k) ''type'' = Some (VStr (edge_type e))"
    by (simp add: pk set_rel_def merge_props_def)
  have ow: "\<forall>key v. edge_properties e key = Some v \<longrightarrow>
         rel_props (g_rels (upsert_edge g e) ! k) key = (if v = VNone then None else Some v)"
    by (auto simp: pk set_rel_def merge_props_def split: val.splits)
  have keep: "\<forall>key. edge_properties e key = None \<and> key \<noteq> ''type'' \<longrightarrow>
         rel_props (g_rels (upsert_edge g e) ! k) key = rel_props (g_rels g ! k) key"
    by (simp add: pk set_rel_def merge_props_def)
  from nodes len sk tk ty ow keep other batch show ?thesis
    by blast
qed

theorem upsert_edge_existing_overwrites_witness:
  "rel_props (g_rels store_ab ! 0) ''type'' = Some (VStr ''calls'')
   \<and> rel_props (g_rels (upsert_edge store_ab uses_ab) ! 0) ''type'' = Some (VStr ''uses'')
   \<and> rel_props (g_rels (upsert_edge store_ab uses_ab) ! 0) ''via'' = Some (VStr ''k8s_env'')
   \<and> rel_props (g_rels (upsert_edge store_ab uses_ab) ! 0) ''id'' = Some (VStr ''edge:A-calls-B'')
   \<and> length (g_rels (upsert_edge store_ab uses_ab)) = 1
   \<and> add_edge [calls_edge ''A'' ''B''] uses_ab = [calls_edge ''A'' ''B'']"
proof -
  have h1: "match_id store_ab (source uses_ab) = [0]" and h2: "match_id store_ab (target uses_ab) = [Suc 0]"
    by (simp_all add: uses_ab_def calls_edge_def match_id_store_ab)
  have h3: "0 < length (g_rels store_ab)" by (simp add: store_ab_rel0)
  have h4: "rel_matches uses_ab 0 (Suc 0) (g_rels store_ab ! 0)"
    by (simp add: store_ab_rel0 rel_matches_def has_id_def uses_ab_def calls_edge_def)
  have h5: "\<exists>x \<in> set [calls_edge ''A'' ''B'']. edge_id x = edge_id uses_ab"
    by (simp add: uses_ab_def calls_edge_def)
  have e: "edge_properties uses_ab ''type'' = None" "edge_properties uses_ab ''via'' = Some (VStr ''k8s_env'')"
     "edge_properties uses_ab ''id'' = None" "edge_type uses_ab = ''uses''"
    by (simp_all add: uses_ab_def calls_edge_def)
  from upsert_edge_existing_overwrites[OF h1 h2 h3 h4, of "[calls_edge ''A'' ''B'']"] h5 e
  show ?thesis by (simp add: store_ab_rel0)
qed

text \<open>
  The claim as stated fails: a second write of the edge \<open>A \<rightarrow> B\<close> under the stored id
  changes the stored type and adds a property.
\<close>

theorem upsert_edge_first_write_wins_counterexample:
  "has_id (edge_id uses_ab) (rel_props (g_rels store_ab ! 0))
   \<and> rel_props (g_rels store_ab ! 0) ''type'' = Some (VStr ''calls'')
   \<and> rel_props (g_rels store_ab ! 0) ''via'' = None
   \<and> rel_props (g_rels (upsert_edge store_ab uses_ab) ! 0) ''type'' = Some (VStr ''uses'')
   \<and> rel_props (g_rels (upsert_edge store_ab uses_ab) ! 0) ''via'' = Some (VStr ''k8s_env'')
   \<and> upsert_edge store_ab uses_ab \<noteq> store_ab"
proof -
  have a: "g_rels (upsert_edge store_ab uses_ab) = [\<lparr>rel_start = 0, rel_end = Suc 0,
      rel_props = [''id'' \<mapsto> VStr ''edge:A-calls-B'', ''type'' \<mapsto> VStr ''uses'', ''via'' \<mapsto> VStr ''k8s_env'']\<rparr>]"
    by (simp add: upsert_edge_def uses_ab_def calls_edge_def match_id_store_ab store_ab_rel0
        merge_rel_def rel_matches_def has_id_def set_rel_def merge_props_def fun_eq_iff)
  have b: "rel_props (g_rels (upsert_edge store_ab uses_ab) ! 0) ''via'' \<noteq> rel_props (g_rels store_ab ! 0) ''via''"
    by (simp add: a store_ab_rel0)
  then have c: "upsert_edge store_ab uses_ab \<noteq> store_ab" by auto
  have d: "has_id (edge_id uses_ab) (rel_props (g_rels store_ab ! 0))"
    by (simp add: store_ab_rel0 has_id_def uses_ab_def calls_edge_def)
  from c d show ?thesis
    by (simp add: a store_ab_rel0)
qed

subsection \<open>Upserting a node that exists\<close>

lemma upsert_node_existing:
  "\<exists>m \<in> set (g_nodes g). has_id (node_id n) m \<Longrightarrow>
   g_nodes (upsert_node g n) = map (\<lambda>m. if has_id (node_id n) m then set_node n m else m) (g_nodes g)"
  by (simp add: upsert_node_def)

lemma upsert_node_rels: "g_rels (upsert_node g n) = g_rels g"
  by (simp add: upsert_node_def)

text \<open>
  C4 (as amended). When a node with the id exists, \<open>upsert_node\<close> creates no node and
  merges key by key: every incoming property is written (a null value removes the key),
  stored keys absent from the incoming properties other than \<open>type\<close> and \<open>name\<close>
  are preserved, and nodes with another id and all relationships are untouched. Applying
  \<open>upsert_node\<close> twice with the same input gives the state of applying it once,
  provided the incoming properties do not rebind the key \<open>id\<close> to another value.
\<close>

theorem upsert_node_merges:
  assumes "k < length (g_nodes g)" and "has_id (node_id n) (g_nodes g ! k)"
  shows "length (g_nodes (upsert_node g n)) = length (g_nodes g)
    \<and> g_rels (upsert_node g n) = g_rels g
    \<and> (\<forall>key v. node_properties n key = Some v \<longrightarrow>
         (g_nodes (upsert_node g n) ! k) key = (if v = VNone then None else Some v))
    \<and> (\<forall>key. node_properties n key = None \<and> key \<noteq> ''type'' \<and> key \<noteq> ''name'' \<longrightarrow>
         (g_nodes (upsert_node g n) ! k) key = (g_nodes g ! k) key)
    \<and> (\<forall>j < length (g_nodes g). \<not> has_id (node_id n) (g_nodes g ! j) \<longrightarrow>
         g_nodes (upsert_node g n) ! j = g_nodes g ! j)
    \<and> (node_properties n ''id'' = None \<or> node_properties n ''id'' = Some (VStr (node_id n)) \<longrightarrow>
         upsert_node (upsert_node g n) n = upsert_node g n)"
proof -
  have ex: "\<exists>m \<in> set (g_nodes g). has_id (node_id n) m"
    using assms nth_mem by blast
  note nodes = upsert_node_existing[OF ex]
  have at_k: "g_nodes (upsert_node g n) ! k = set_node n (g_nodes g ! k)"
    using assms by (simp add: nodes)
  have len: "length (g_nodes (upsert_node g n)) = length (g_nodes g)"
    by (simp add: nodes)
  have ow: "\<forall>key v. node_properties n key = Some v \<longrightarrow>
         (g_nodes (upsert_node g n) ! k) key = (if v = VNone then None else Some v)"
    by (auto simp: at_k set_node_def merge_props_def split: val.splits)
  have keep: "\<forall>key. node_properties n key = None \<and> key \<noteq> ''type'' \<and> key \<noteq> ''name'' \<longrightarrow>
         (g_nodes (upsert_node g n) ! k) key = (g_nodes g ! k) key"
    by (simp add: at_k set_node_def merge_props_def)
  have other: "\<forall>j < length (g_nodes g). \<not> has_id (node_id n) (g_nodes g ! j) \<longrightarrow>
         g_nodes (upsert_node g n) ! j = g_nodes g ! j"
    by (simp add: nodes)
  have idem: "node_properties n ''id'' = None \<or> node_properties n ''id'' = Some (VStr (node_id n)) \<longrightarrow>
         upsert_node (upsert_node g n) n = upsert_node g n"
    using upsert_node_idem by blast
  from len upsert_node_rels ow keep other idem show ?thesis
    by blast
qed


theorem upsert_node_merges_witness:
  "(g_nodes (upsert_node store_ab retyped) ! 0) ''port'' = Some (VInt 5432)
   \<and> (g_nodes (upsert_node store_ab retyped) ! 0) ''id'' = Some (VStr ''service:A'')
   \<and> g_nodes (upsert_node store_ab retyped) ! 1 = g_nodes store_ab ! 1
   \<and> upsert_node (upsert_node store_ab retyped) retyped = upsert_node store_ab retyped"
proof -
  have h1: "0 < length (g_nodes store_ab)" by (simp add: store_ab_nodes)
  have h2: "has_id (node_id retyped) (g_nodes store_ab ! 0)"
    by (simp add: store_ab_nodes has_id_def retyped_def)
  have p: "node_properties retyped ''port'' = Some (VInt 5432)" "node_properties retyped ''id'' = None"
    by (simp_all add: retyped_def)
  have h3: "1 < length (g_nodes store_ab) \<and> \<not> has_id (node_id retyped) (g_nodes store_ab ! 1)"
    by (simp add: store_ab_nodes has_id_def retyped_def)
  from upsert_node_merges[OF h1 h2] p h3 show ?thesis
    by (simp add: store_ab_nodes)
qed

text \<open>
  The claim as stated fails: properties share the node's key space, so a property named
  \<open>id\<close> replaces the stored id, and the second identical upsert finds no node with the
  id it merges on and creates another.
\<close>

theorem upsert_node_idempotent_counterexample:
  "length (g_nodes (upsert_node empty_graph relabelled)) = 1
   \<and> length (g_nodes (upsert_node (upsert_node empty_graph relabelled) relabelled)) = 2
   \<and> upsert_node (upsert_node empty_graph relabelled) relabelled \<noteq> upsert_node empty_graph relabelled"
proof -
  have a: "g_nodes (upsert_node empty_graph relabelled) =
     [[''id'' \<mapsto> VStr ''x'', ''type'' \<mapsto> VStr ''service'', ''name'' \<mapsto> VStr ''A'']]"
    by (simp add: upsert_node_def empty_graph_def relabelled_def svc_def has_id_def set_node_def
        merge_props_def fun_eq_iff)
  have b: "length (g_nodes (upsert_node (upsert_node empty_graph relabelled) relabelled)) = 2"
    unfolding upsert_node_def[of "upsert_node empty_graph relabelled"] a
    by (simp add: relabelled_def svc_def has_id_def)
  from b a have "length (g_nodes (upsert_node (upsert_node empty_graph relabelled) relabelled))
      \<noteq> length (g_nodes (upsert_node empty_graph relabelled))" by simp
  then have "upsert_node (upsert_node empty_graph relabelled) relabelled \<noteq> upsert_node empty_graph relabelled"
    by auto
  with a b show ?thesis by simp
qed







subsection \<open>Ownership resolution\<close>

lemmas str_eval = sublist_code(3) suffix_to_prefix

lemma set_alist_update: "set (AList.update k v m) \<subseteq> insert (k, v) (set m)"
  by (induction m) auto

lemma build_node_map_items_gen:
  "(k, i) \<in> set (fold (\<lambda>node m. AList.update (node_id node) (node_id node)
                      (AList.update (node_name node) (node_id node) m)) ns m0) \<Longrightarrow>
   (k, i) \<in> set m0 \<or> (\<exists>n \<in> set ns. node_id n = i \<and> (node_name n = k \<or> node_id n = k))"
proof (induction ns arbitrary: m0)
  case Nil
  then show ?case by simp
next
  case (Cons n ns)
  let ?m1 = "AList.update (node_id n) (node_id n) (AList.update (node_name n) (node_id n) m0)"
  from Cons.IH[of ?m1] Cons.prems
  have "(k, i) \<in> set ?m1 \<or> (\<exists>n \<in> set ns. node_id n = i \<and> (node_name n = k \<or> node_id n = k))"
    by simp
  moreover have "set ?m1 \<subseteq> insert (node_id n, node_id n) (insert (node_name n, node_id n) (set m0))"
    using set_alist_update[of "node_id n" "node_id n"] set_alist_update[of "node_name n" "node_id n" m0]
    by blast
  ultimately show ?case by auto
qed

lemma build_node_map_items:
  "(k, i) \<in> set (build_node_map ns) \<Longrightarrow>
   \<exists>n \<in> set ns. node_id n = i \<and> (node_name n = k \<or> node_id n = k)"
  using build_node_map_items_gen[of k i ns "[]"] by (simp add: build_node_map_def)

lemma fuzzy_match_sublist: "fuzzy_match tgt item = sublist tgt (fst item)"
  by (auto simp: fuzzy_match_def)

lemma find_first:
  "\<forall>y \<in> set pre. \<not> P y \<Longrightarrow> P x \<Longrightarrow> find P (pre @ x # post) = Some x"
  by (induction pre) auto

lemma resolve_loop_acc:
  "resolve_loop m es acc = (case resolve_loop m es [] of Inl err \<Rightarrow> Inl err | Inr r \<Rightarrow> Inr (acc @ r))"
proof (induction es arbitrary: acc)
  case Nil
  then show ?case by simp
next
  case (Cons e es)
  show ?case
  proof (cases "resolve_edge m e")
    case (Inl err)
    then show ?thesis by simp
  next
    case (Inr r)
    then show ?thesis
      using Cons.IH[of "acc @ r"] Cons.IH[of r] by (simp split: sum.splits)
  qed
qed

lemma resolve_loop_append:
  "resolve_loop m (es1 @ es2) acc =
     (case resolve_loop m es1 acc of Inl err \<Rightarrow> Inl err | Inr r \<Rightarrow> resolve_loop m es2 r)"
  by (induction es1 arbitrary: acc) (auto split: sum.splits)

lemma resolve_single: "resolve_ownership_targets [e] ns = resolve_edge (build_node_map ns) e"
  by (simp add: resolve_ownership_targets_def split: sum.splits)

text \<open>
  C1 (as amended). For every raw \<open>owns\<close> edge, when the literal target is a key of the
  lookup (a node's bare name or full id), the edge is returned with its target rewritten
  to the id stored under that key, the id of a node with that name or id. Otherwise the
  items of the lookup are scanned in insertion order and the first key (a name or an id)
  that contains the target as a substring decides: the edge is returned with that item's
  id as target and an id rebuilt from the two names (or \<open>IndexError\<close> is raised when
  the source or that id has no colon). No lexicographic order is consulted. When no key
  contains the target, the edge is dropped from the result and nothing is reported. The
  result for a list of edges is the concatenation of the results for its edges, in order.
\<close>

theorem resolve_ownership_first_match:
  assumes "edge_type e = ''owns''"
  shows "(\<forall>i. map_of (build_node_map ns) (target e) = Some i \<longrightarrow>
            resolve_ownership_targets [e] ns = Inr [e\<lparr>target := i\<rparr>]
            \<and> (\<exists>n \<in> set ns. node_id n = i \<and> (node_name n = target e \<or> node_id n = target e)))
    \<and> (map_of (build_node_map ns) (target e) = None
         \<and> (\<forall>item \<in> set (build_node_map ns). \<not> sublist (target e) (fst item)) \<longrightarrow>
            resolve_ownership_targets [e] ns = Inr [])
    \<and> (\<forall>pre k i post.
          map_of (build_node_map ns) (target e) = None
          \<and> build_node_map ns = pre @ (k, i) # post
          \<and> (\<forall>item \<in> set pre. \<not> sublist (target e) (fst item))
          \<and> sublist (target e) k \<longrightarrow>
            (\<exists>n \<in> set ns. node_id n = i \<and> (node_name n = k \<or> node_id n = k))
            \<and> resolve_ownership_targets [e] ns =
                (case split1 (source e) of
                   Inl err \<Rightarrow> Inl err
                 | Inr s \<Rightarrow>
                    (case split1 i of
                       Inl err \<Rightarrow> Inl err
                     | Inr t \<Rightarrow>
                        Inr [\<lparr>edge_id = ''edge:'' @ s @ ''-owns-'' @ t, edge_type = ''owns'',
                              source = source e, target = i,
                              edge_properties = edge_properties e\<rparr>])))
    \<and> resolve_ownership_targets (es1 @ es2) ns =
         (case resolve_ownership_targets es1 ns of
            Inl err \<Rightarrow> Inl err
          | Inr r1 \<Rightarrow>
             (case resolve_ownership_targets es2 ns of
                Inl err \<Rightarrow> Inl err
              | Inr r2 \<Rightarrow> Inr (r1 @ r2)))"
proof (intro conjI allI impI)
  fix i assume h: "map_of (build_node_map ns) (target e) = Some i"
  show "resolve_ownership_targets [e] ns = Inr [e\<lparr>target := i\<rparr>]"
    using assms h by (simp add: resolve_single resolve_edge_def)
  show "\<exists>n \<in> set ns. node_id n = i \<and> (node_name n = target e \<or> node_id n = target e)"
    using map_of_SomeD[OF h] by (rule build_node_map_items)
next
  assume h: "map_of (build_node_map ns) (target e) = None
         \<and> (\<forall>item \<in> set (build_node_map ns). \<not> sublist (target e) (fst item))"
  then have "find (fuzzy_match (target e)) (build_node_map ns) = None"
    by (auto simp: find_None_iff fuzzy_match_sublist)
  then show "resolve_ownership_targets [e] ns = Inr []"
    using assms h by (simp add: resolve_single resolve_edge_def)
next
  fix pre k i post
  assume h: "map_of (build_node_map ns) (target e) = None
          \<and> build_node_map ns = pre @ (k, i) # post
          \<and> (\<forall>item \<in> set pre. \<not> sublist (target e) (fst item))
          \<and> sublist (target e) k"
  then have "(k, i) \<in> set (build_node_map ns)" by auto
  then show "\<exists>n \<in> set ns. node_id n = i \<and> (node_name n = k \<or> node_id n = k)"
    by (rule build_node_map_items)
  have "find (fuzzy_match (target e)) (pre @ (k, i) # post) = Some (k, i)"
    using h by (intro find_first) (auto simp: fuzzy_match_sublist)
  moreover from h have "build_node_map ns = pre @ (k, i) # post" by blast
  ultimately have f: "find (fuzzy_match (target e)) (build_node_map ns) = Some (k, i)"
    by simp
  from h have n: "map_of (build_node_map ns) (target e) = None" by blast
  show "resolve_ownership_targets [e] ns =
                (case split1 (source e) of
                   Inl err \<Rightarrow> Inl err
                 | Inr s \<Rightarrow>
                    (case split1 i of
                       Inl err \<Rightarrow> Inl err
                     | Inr t \<Rightarrow>
                        Inr [\<lparr>edge_id = ''edge:'' @ s @ ''-owns-'' @ t, edge_type = ''owns'',
                              source = source e, target = i,
                              edge_properties = edge_properties e\<rparr>]))"
    using assms by (simp add: resolve_single resolve_edge_def f n split: sum.splits)
next
  show "resolve_ownership_targets (es1 @ es2) ns =
         (case resolve_ownership_targets es1 ns of
            Inl err \<Rightarrow> Inl err
          | Inr r1 \<Rightarrow>
             (case resolve_ownership_targets es2 ns of
                Inl err \<Rightarrow> Inl err
              | Inr r2 \<Rightarrow> Inr (r1 @ r2)))"
  proof (cases "resolve_loop (build_node_map ns) es1 []")
    case (Inl err)
    then show ?thesis
      by (simp add: resolve_ownership_targets_def resolve_loop_append)
  next
    case (Inr r1)
    have "resolve_loop (build_node_map ns) (es1 @ es2) [] = resolve_loop (build_node_map ns) es2 r1"
      by (simp add: resolve_loop_append Inr)
    also have "\<dots> = (case resolve_loop (build_node_map ns) es2 [] of
                         Inl err \<Rightarrow> Inl err | Inr r2 \<Rightarrow> Inr (r1 @ r2))"
      by (rule resolve_loop_acc)
    finally show ?thesis
      by (simp add: resolve_ownership_targets_def Inr)
  qed
qed


lemma node_map_web:
  "build_node_map [svc ''web-b'', svc ''web-a''] =
     [(''web-b'', ''service:web-b''), (''service:web-b'', ''service:web-b''),
      (''web-a'', ''service:web-a''), (''service:web-a'', ''service:web-a'')]"
  by (simp add: build_node_map_def svc_def)

lemma resolve_web:
  "resolve_ownership_targets [owns_edge ''T'' ''web''] [svc ''web-b'', svc ''web-a''] =
     Inr [\<lparr>edge_id = ''edge:T-owns-web-b'', edge_type = ''owns'', source = ''team:T'',
           target = ''service:web-b'', edge_properties = Map.empty\<rparr>]"
  by (simp add: resolve_single node_map_web resolve_edge_def owns_edge_def fuzzy_match_def
      split1_def str_eval)

lemma resolve_zzz:
  "resolve_ownership_targets [owns_edge ''T'' ''zzz''] [svc ''web-b'', svc ''web-a''] = Inr []"
  by (simp add: resolve_single node_map_web resolve_edge_def owns_edge_def fuzzy_match_def
      split1_def str_eval)

theorem resolve_ownership_first_match_witness:
  "resolve_ownership_targets [owns_edge ''T'' ''web''] [svc ''web-b'', svc ''web-a''] =
     Inr [\<lparr>edge_id = ''edge:T-owns-web-b'', edge_type = ''owns'', source = ''team:T'',
           target = ''service:web-b'', edge_properties = Map.empty\<rparr>]
   \<and> resolve_ownership_targets [owns_edge ''T'' ''web-a''] [svc ''web-b'', svc ''web-a''] =
     Inr [(owns_edge ''T'' ''web-a'')\<lparr>target := ''service:web-a''\<rparr>]
   \<and> resolve_ownership_targets [owns_edge ''T'' ''zzz''] [svc ''web-b'', svc ''web-a''] = Inr []"
proof -
  let ?ns = "[svc ''web-b'', svc ''web-a'']"
  have ty: "edge_type (owns_edge ''T'' t) = ''owns''" for t
    by (simp add: owns_edge_def)
  have tg: "target (owns_edge ''T'' t) = t" for t
    by (simp add: owns_edge_def)
  have c: "map_of (build_node_map ?ns) (target (owns_edge ''T'' ''web'')) = None
          \<and> build_node_map ?ns = [] @ (''web-b'', ''service:web-b'') #
               [(''service:web-b'', ''service:web-b''), (''web-a'', ''service:web-a''),
                (''service:web-a'', ''service:web-a'')]
          \<and> (\<forall>item \<in> set []. \<not> sublist (target (owns_edge ''T'' ''web'')) (fst item))
          \<and> sublist (target (owns_edge ''T'' ''web'')) ''web-b''"
    by (simp add: node_map_web tg str_eval)
  have a: "map_of (build_node_map ?ns) (target (owns_edge ''T'' ''web-a'')) = Some ''service:web-a''"
    by (simp add: node_map_web tg)
  have b: "map_of (build_node_map ?ns) (target (owns_edge ''T'' ''zzz'')) = None
         \<and> (\<forall>item \<in> set (build_node_map ?ns). \<not> sublist (target (owns_edge ''T'' ''zzz'')) (fst item))"
    by (simp add: node_map_web tg str_eval)
  have s: "split1 (source (owns_edge ''T'' ''web'')) = Inr ''T''" "split1 ''service:web-b'' = Inr ''web-b''"
    by (simp_all add: split1_def owns_edge_def)
  from resolve_ownership_first_match[OF ty, of ?ns "''web''" "[]" "[]"] c
  have "resolve_ownership_targets [owns_edge ''T'' ''web''] ?ns =
          (case split1 (source (owns_edge ''T'' ''web'')) of
                   Inl err \<Rightarrow> Inl err
                 | Inr s \<Rightarrow>
                    (case split1 ''service:web-b'' of
                       Inl err \<Rightarrow> Inl err
                     | Inr t \<Rightarrow>
                        Inr [\<lparr>edge_id = ''edge:'' @ s @ ''-owns-'' @ t, edge_type = ''owns'',
                              source = source (owns_edge ''T'' ''web''), target = ''service:web-b'',
                              edge_properties = edge_properties (owns_edge ''T'' ''web'')\<rparr>]))"
    by blast
  then have 1: "resolve_ownership_targets [owns_edge ''T'' ''web''] ?ns =
     Inr [\<lparr>edge_id = ''edge:T-owns-web-b'', edge_type = ''owns'', source = ''team:T'',
           target = ''service:web-b'', edge_properties = Map.empty\<rparr>]"
    by (simp add: s) (simp add: owns_edge_def)
  from resolve_ownership_first_match[OF ty, of ?ns "''web-a''" "[]" "[]"] a
  have 2: "resolve_ownership_targets [owns_edge ''T'' ''web-a''] ?ns =
     Inr [(owns_edge ''T'' ''web-a'')\<lparr>target := ''service:web-a''\<rparr>]"
    by blast
  from resolve_ownership_first_match[OF ty, of ?ns "''zzz''" "[]" "[]"] b
  have 3: "resolve_ownership_targets [owns_edge ''T'' ''zzz''] ?ns = Inr []"
    by blast
  from 1 2 3 show ?thesis by blast
qed

text \<open>
  The claim as stated fails: with the nodes \<open>web-b\<close> and \<open>web-a\<close> in this order,
  the target \<open>web\<close> resolves to \<open>service:web-b\<close>, while the candidate with the
  smallest id is \<open>service:web-a\<close>; and the target \<open>zzz\<close>, which has no candidate,
  is dropped without any diagnostic.
\<close>

theorem resolve_ownership_smallest_id_counterexample:
  "resolve_ownership_targets [owns_edge ''T'' ''web''] [svc ''web-b'', svc ''web-a''] =
     Inr [\<lparr>edge_id = ''edge:T-owns-web-b'', edge_type = ''owns'', source = ''team:T'',
           target = ''service:web-b'', edge_properties = Map.empty\<rparr>]
   \<and> spec_fuzzy_pick [svc ''web-b'', svc ''web-a''] ''web'' = Some ''service:web-a''
   \<and> resolve_ownership_targets [owns_edge ''T'' ''zzz''] [svc ''web-b'', svc ''web-a''] = Inr []
   \<and> spec_candidates [svc ''web-b'', svc ''web-a''] ''zzz'' = []"
proof -
  have "spec_fuzzy_pick [svc ''web-b'', svc ''web-a''] ''web'' = Some ''service:web-a''"
    by (simp add: spec_fuzzy_pick_def spec_candidates_def svc_def str_eval)
  moreover have "spec_candidates [svc ''web-b'', svc ''web-a''] ''zzz'' = []"
    by (simp add: spec_candidates_def svc_def str_eval)
  ultimately show ?thesis
    using resolve_web resolve_zzz by blast
qed

subsection \<open>Dependency closure\<close>


lemma var_paths_iff:
  "js \<in> set (var_paths g fwd d used v) \<longleftrightarrow>
     js \<noteq> [] \<and> length js \<le> d \<and> chain g fwd v js \<and> distinct js \<and> set js \<inter> set used = {}"
proof (induction d arbitrary: used v js)
  case 0
  then show ?case by simp
next
  case (Suc d)
  show ?case
  proof
    assume "js \<in> set (var_paths g fwd (Suc d) used v)"
    then obtain j where j: "j \<in> set (next_rels g fwd used v)"
      and js: "js = [j] \<or> (\<exists>js'. js = j # js' \<and> js' \<in> set (var_paths g fwd d (j # used) (rel_to fwd (g_rels g ! j))))"
      by auto
    from j have jp: "j < length (g_rels g)" "rel_from fwd (g_rels g ! j) = v" "j \<notin> set used"
      by (auto simp: next_rels_def)
    from js show "js \<noteq> [] \<and> length js \<le> Suc d \<and> chain g fwd v js \<and> distinct js \<and> set js \<inter> set used = {}"
    proof
      assume "js = [j]"
      with jp show ?thesis by simp
    next
      assume "\<exists>js'. js = j # js' \<and> js' \<in> set (var_paths g fwd d (j # used) (rel_to fwd (g_rels g ! j)))"
      then obtain js' where e: "js = j # js'"
        and m: "js' \<in> set (var_paths g fwd d (j # used) (rel_to fwd (g_rels g ! j)))" by blast
      from m Suc.IH have "js' \<noteq> [] \<and> length js' \<le> d \<and> chain g fwd (rel_to fwd (g_rels g ! j)) js'
          \<and> distinct js' \<and> set js' \<inter> set (j # used) = {}" by blast
      with jp e show ?thesis by auto
    qed
  next
    assume a: "js \<noteq> [] \<and> length js \<le> Suc d \<and> chain g fwd v js \<and> distinct js \<and> set js \<inter> set used = {}"
    then obtain j js' where e: "js = j # js'" by (cases js) auto
    with a have jp: "j < length (g_rels g)" "rel_from fwd (g_rels g ! j) = v" "j \<notin> set used"
      and c: "chain g fwd (rel_to fwd (g_rels g ! j)) js'" and d: "distinct js'" "j \<notin> set js'"
      and u: "set js' \<inter> set used = {}" and l: "length js' \<le> d"
      by auto
    from jp have jn: "j \<in> set (next_rels g fwd used v)" by (simp add: next_rels_def)
    show "js \<in> set (var_paths g fwd (Suc d) used v)"
    proof (cases "js' = []")
      case True
      with e jn show ?thesis by auto
    next
      case False
      with c d u l have "js' \<in> set (var_paths g fwd d (j # used) (rel_to fwd (g_rels g ! j)))"
        using Suc.IH[of js' "j # used" "rel_to fwd (g_rels g ! j)"] by auto
      with e jn show ?thesis by auto
    qed
  qed
qed


lemma chain_append:
  "chain g fwd v (as @ bs) \<longleftrightarrow>
     chain g fwd v as \<and> chain g fwd (if as = [] then v else path_end g fwd as) bs"
  by (induction as arbitrary: v) (auto simp: path_end_def)

lemma chain_shorten:
  "chain g fwd v js \<Longrightarrow> js \<noteq> [] \<Longrightarrow>
   \<exists>js'. js' \<noteq> [] \<and> length js' \<le> length js \<and> chain g fwd v js' \<and> distinct js'
         \<and> path_end g fwd js' = path_end g fwd js"
proof (induction "length js" arbitrary: js rule: less_induct)
  case less
  show ?case
  proof (cases "distinct js")
    case True
    with less.prems show ?thesis by blast
  next
    case False
    then obtain xs ys zs j where d: "js = xs @ [j] @ ys @ [j] @ zs"
      using not_distinct_decomp by blast
    let ?js2 = "xs @ [j] @ zs"
    have c1: "chain g fwd v (xs @ [j])" and c2: "chain g fwd (rel_to fwd (g_rels g ! j)) zs"
      using less.prems(1) unfolding d
      by (simp_all add: chain_append path_end_def)
    have c: "chain g fwd v ?js2"
      using c1 c2 by (simp add: chain_append[of g fwd v "xs @ [j]" zs, simplified] path_end_def)
    have e: "path_end g fwd ?js2 = path_end g fwd js"
      by (simp add: d path_end_def)
    have l: "length ?js2 < length js" by (simp add: d)
    from less.hyps[OF l c] obtain js' where
      "js' \<noteq> [] \<and> length js' \<le> length ?js2 \<and> chain g fwd v js' \<and> distinct js'
         \<and> path_end g fwd js' = path_end g fwd ?js2" by auto
    with e l show ?thesis
      by (intro exI[of _ js']) auto
  qed
qed

lemma set_distinct_first [simp]: "set (distinct_first xs) = set xs"
  by (simp add: distinct_first_def)

lemma distinct_distinct_first [simp]: "distinct (distinct_first xs)"
  by (simp add: distinct_first_def)

lemma closure_nodes_set:
  "set (closure_nodes g fwd i) = {w. \<exists>s \<in> set (match_id g i). reachable_within g fwd 10 s w}"
proof (intro set_eqI iffI)
  fix w assume "w \<in> set (closure_nodes g fwd i)"
  then obtain s js where s: "s \<in> set (match_id g i)" and js: "js \<in> set (var_paths g fwd 10 [] s)"
    and w: "w = path_end g fwd js"
    by (auto simp: closure_nodes_def)
  from js have "js \<noteq> [] \<and> length js \<le> 10 \<and> chain g fwd s js"
    by (simp add: var_paths_iff)
  with w have "reachable_within g fwd 10 s w"
    unfolding reachable_within_def by blast
  with s show "w \<in> {w. \<exists>s \<in> set (match_id g i). reachable_within g fwd 10 s w}" by blast
next
  fix w assume "w \<in> {w. \<exists>s \<in> set (match_id g i). reachable_within g fwd 10 s w}"
  then obtain s js where s: "s \<in> set (match_id g i)"
    and js: "js \<noteq> []" "length js \<le> 10" "chain g fwd s js" "path_end g fwd js = w"
    unfolding reachable_within_def by blast
  from chain_shorten[OF js(3) js(1)] obtain js' where
    js': "js' \<noteq> []" "length js' \<le> length js" "chain g fwd s js'" "distinct js'"
       "path_end g fwd js' = path_end g fwd js" by blast
  with js(2) have "js' \<in> set (var_paths g fwd 10 [] s)"
    by (simp add: var_paths_iff)
  with s js' js(4) show "w \<in> set (closure_nodes g fwd i)"
    by (auto simp: closure_nodes_def)
qed


text \<open>
  C6 (as amended). Without \<open>edge_types\<close>, \<open>downstream(id)\<close> returns exactly the
  nodes reached from a node with the id by following one to ten directed edges forward,
  edges of every type (\<open>owns\<close> included), each node once; \<open>upstream(id)\<close> is the
  same against the direction of the edges. The start node is not excluded: it is in the
  result whenever a cycle of at most ten edges leads back to it.
\<close>

theorem closure_exact:
  "set (downstream g i) = {g_nodes g ! w | w. \<exists>s \<in> set (match_id g i). reachable_within g True 10 s w}
   \<and> length (downstream g i) = card {w. \<exists>s \<in> set (match_id g i). reachable_within g True 10 s w}
   \<and> set (upstream g i) = {g_nodes g ! w | w. \<exists>s \<in> set (match_id g i). reachable_within g False 10 s w}
   \<and> length (upstream g i) = card {w. \<exists>s \<in> set (match_id g i). reachable_within g False 10 s w}
   \<and> (\<forall>s \<in> set (match_id g i). reachable_within g True 10 s s \<longrightarrow> g_nodes g ! s \<in> set (downstream g i))
   \<and> (\<forall>s \<in> set (match_id g i). reachable_within g False 10 s s \<longrightarrow> g_nodes g ! s \<in> set (upstream g i))"
proof -
  have len: "length (closure_nodes g fwd i) = card {w. \<exists>s \<in> set (match_id g i). reachable_within g fwd 10 s w}" for fwd
  proof -
    have "distinct (closure_nodes g fwd i)" by (simp add: closure_nodes_def)
    then have "card (set (closure_nodes g fwd i)) = length (closure_nodes g fwd i)"
      by (rule distinct_card)
    then show ?thesis by (simp only: closure_nodes_set)
  qed
  have st: "(\<lambda>k. g_nodes g ! k) ` set (closure_nodes g fwd i) =
      {g_nodes g ! w | w. \<exists>s \<in> set (match_id g i). reachable_within g fwd 10 s w}" for fwd
    unfolding closure_nodes_set by blast
  have cyc: "\<forall>s \<in> set (match_id g i). reachable_within g fwd 10 s s \<longrightarrow>
      g_nodes g ! s \<in> (\<lambda>k. g_nodes g ! k) ` set (closure_nodes g fwd i)" for fwd
    unfolding closure_nodes_set by blast
  show ?thesis
    using len[of True] len[of False] st[of True] st[of False] cyc[of True] cyc[of False]
    by (simp add: downstream_def upstream_def)
qed

lemma store_abc_nodes:
  "g_nodes store_abc =
     [[''id'' \<mapsto> VStr ''service:A'', ''type'' \<mapsto> VStr ''service'', ''name'' \<mapsto> VStr ''A''],
      [''id'' \<mapsto> VStr ''service:B'', ''type'' \<mapsto> VStr ''service'', ''name'' \<mapsto> VStr ''B''],
      [''id'' \<mapsto> VStr ''service:C'', ''type'' \<mapsto> VStr ''service'', ''name'' \<mapsto> VStr ''C''],
      [''id'' \<mapsto> VStr ''team:T'', ''type'' \<mapsto> VStr ''team'', ''name'' \<mapsto> VStr ''T'', ''lead'' \<mapsto> VStr ''lee'']]"
  by (simp add: store_abc_def store_eval team_node_def team_t_def owns_edge_def fun_eq_iff)

lemma store_abc_rels:
  "g_rels store_abc =
     [\<lparr>rel_start = 0, rel_end = 1, rel_props = [''id'' \<mapsto> VStr ''edge:A-calls-B'', ''type'' \<mapsto> VStr ''calls'']\<rparr>,
      \<lparr>rel_start = 1, rel_end = 2, rel_props = [''id'' \<mapsto> VStr ''edge:B-calls-C'', ''type'' \<mapsto> VStr ''calls'']\<rparr>,
      \<lparr>rel_start = 3, rel_end = 0, rel_props = [''id'' \<mapsto> VStr ''edge:T-owns-service:A'', ''type'' \<mapsto> VStr ''owns'']\<rparr>]"
  by (simp add: store_abc_def store_eval team_node_def team_t_def owns_edge_def fun_eq_iff)

lemma store_cycle_nodes:
  "g_nodes store_cycle =
     [[''id'' \<mapsto> VStr ''service:A'', ''type'' \<mapsto> VStr ''service'', ''name'' \<mapsto> VStr ''A''],
      [''id'' \<mapsto> VStr ''service:B'', ''type'' \<mapsto> VStr ''service'', ''name'' \<mapsto> VStr ''B'']]"
  by (simp add: store_cycle_def store_eval fun_eq_iff)

lemma store_cycle_rels:
  "g_rels store_cycle =
     [\<lparr>rel_start = 0, rel_end = 1, rel_props = [''id'' \<mapsto> VStr ''edge:A-calls-B'', ''type'' \<mapsto> VStr ''calls'']\<rparr>,
      \<lparr>rel_start = 1, rel_end = 0, rel_props = [''id'' \<mapsto> VStr ''edge:B-calls-A'', ''type'' \<mapsto> VStr ''calls'']\<rparr>]"
  by (simp add: store_cycle_def store_eval fun_eq_iff)

lemmas query_eval = closure_nodes_def match_id_def has_id_def next_rels_def path_end_def
  rel_from_def rel_to_def distinct_first_def

lemma closure_abc:
  "closure_nodes store_abc True ''service:A'' = [1, 2]"
  "closure_nodes store_abc False ''service:C'' = [1, 0, 3]"
  "closure_nodes store_abc True ''service:B'' = [2]"
  "closure_nodes store_abc False ''service:B'' = [0, 3]"
  by (simp_all add: query_eval store_abc_nodes store_abc_rels eval_nat_numeral)

lemma closure_cycle:
  "closure_nodes store_cycle True ''service:A'' = [1, 0]"
  by (simp add: query_eval store_cycle_nodes store_cycle_rels eval_nat_numeral)

lemma downstream_abc:
  "node_ids (downstream store_abc ''service:A'') = [Some (VStr ''service:B''), Some (VStr ''service:C'')]"
  by (simp add: node_ids_def downstream_def closure_abc store_abc_nodes eval_nat_numeral)

lemma upstream_abc:
  "node_ids (upstream store_abc ''service:C'') =
     [Some (VStr ''service:B''), Some (VStr ''service:A''), Some (VStr ''team:T'')]"
  by (simp add: node_ids_def upstream_def closure_abc store_abc_nodes eval_nat_numeral)

lemma downstream_cycle:
  "node_ids (downstream store_cycle ''service:A'') = [Some (VStr ''service:B''), Some (VStr ''service:A'')]"
  by (simp add: node_ids_def downstream_def closure_cycle store_cycle_nodes eval_nat_numeral)

theorem closure_exact_witness:
  "{w. \<exists>s \<in> set (match_id store_cycle ''service:A''). reachable_within store_cycle True 10 s w} \<noteq> {}
   \<and> g_nodes store_cycle ! 0 \<in> set (downstream store_cycle ''service:A'')
   \<and> length (downstream store_cycle ''service:A'') = 2
   \<and> card {w. \<exists>s \<in> set (match_id store_cycle ''service:A''). reachable_within store_cycle True 10 s w} = 2"
proof -
  have m: "match_id store_cycle ''service:A'' = [0]"
    by (simp add: match_id_def has_id_def store_cycle_nodes)
  have r: "reachable_within store_cycle True 10 0 0"
    unfolding reachable_within_def
    by (intro exI[of _ "[0, 1]"]) (simp add: store_cycle_rels path_end_def rel_from_def rel_to_def)
  have l: "length (downstream store_cycle ''service:A'') = 2"
    by (simp add: downstream_def closure_cycle)
  from closure_exact[of store_cycle "''service:A''"] m r l show ?thesis
    by auto
qed

text \<open>
  The claim as stated fails: with \<open>A\<close> and \<open>B\<close> calling each other,
  \<open>downstream(A)\<close> holds \<open>A\<close> itself; and with \<open>A \<rightarrow> B \<rightarrow> C\<close> and team
  \<open>T\<close> owning \<open>A\<close>, \<open>downstream(A)\<close> is \<open>{B, C}\<close> but \<open>upstream(C)\<close> is
  \<open>{B, A, T}\<close>, the \<open>owns\<close> edge being followed like any other.
\<close>

theorem closure_excludes_start_counterexample:
  "match_id store_cycle ''service:A'' = [0]
   \<and> closure_nodes store_cycle True ''service:A'' = [1, 0]
   \<and> node_ids (downstream store_cycle ''service:A'') = [Some (VStr ''service:B''), Some (VStr ''service:A'')]
   \<and> node_ids (downstream store_abc ''service:A'') = [Some (VStr ''service:B''), Some (VStr ''service:C'')]
   \<and> node_ids (upstream store_abc ''service:C'') =
       [Some (VStr ''service:B''), Some (VStr ''service:A''), Some (VStr ''team:T'')]"
proof -
  have "match_id store_cycle ''service:A'' = [0]"
    by (simp add: match_id_def has_id_def store_cycle_nodes)
  then show ?thesis
    using closure_cycle downstream_cycle downstream_abc upstream_abc by blast
qed

subsection \<open>Owner lookup\<close>

lemma get_owner_None_iff:
  "get_owner g v = None \<longleftrightarrow> owner_rows g v = []"
  by (simp add: get_owner_def split: list.splits)

text \<open>
  C8 (as amended). \<open>get_owner(id)\<close> returns nothing exactly when no team node has an
  outgoing \<open>owns\<close> edge to a node with the id; a node it returns is a team node with
  such an edge. It never fails: when the store holds several owning teams, the first
  record of the query is returned (the driver only warns), no \<open>AmbiguousOwner\<close> is
  surfaced.
\<close>

theorem get_owner_first_row:
  "(get_owner g (VStr x) = None \<longleftrightarrow>
      \<not> (\<exists>r \<in> set (g_rels g). prop_is (g_nodes g ! rel_start r) ''type'' (VStr ''team'')
            \<and> prop_is (rel_props r) ''type'' (VStr ''owns'')
            \<and> has_id x (g_nodes g ! rel_end r)))
   \<and> (\<forall>t. get_owner g (VStr x) = Some t \<longrightarrow>
        (\<exists>r \<in> set (g_rels g). t = g_nodes g ! rel_start r
            \<and> prop_is t ''type'' (VStr ''team'')
            \<and> prop_is (rel_props r) ''type'' (VStr ''owns'')
            \<and> has_id x (g_nodes g ! rel_end r)))
   \<and> (\<forall>t others. owner_rows g (VStr x) = t # others \<longrightarrow> get_owner g (VStr x) = Some t)"
proof (intro conjI allI impI)
  show "get_owner g (VStr x) = None \<longleftrightarrow>
      \<not> (\<exists>r \<in> set (g_rels g). prop_is (g_nodes g ! rel_start r) ''type'' (VStr ''team'')
            \<and> prop_is (rel_props r) ''type'' (VStr ''owns'')
            \<and> has_id x (g_nodes g ! rel_end r))"
    by (auto simp: get_owner_None_iff owner_rows_def filter_empty_conv prop_is_def has_id_def)
next
  fix t assume "get_owner g (VStr x) = Some t"
  then have "t \<in> set (owner_rows g (VStr x))"
    by (auto simp: get_owner_def split: list.splits)
  then show "\<exists>r \<in> set (g_rels g). t = g_nodes g ! rel_start r
            \<and> prop_is t ''type'' (VStr ''team'')
            \<and> prop_is (rel_props r) ''type'' (VStr ''owns'')
            \<and> has_id x (g_nodes g ! rel_end r)"
    by (auto simp: owner_rows_def prop_is_def has_id_def)
next
  fix t others assume "owner_rows g (VStr x) = t # others"
  then show "get_owner g (VStr x) = Some t"
    by (simp add: get_owner_def)
qed

lemma store_two_owners_nodes:
  "g_nodes store_two_owners =
     [[''id'' \<mapsto> VStr ''service:A'', ''type'' \<mapsto> VStr ''service'', ''name'' \<mapsto> VStr ''A''],
      [''id'' \<mapsto> VStr ''team:T'', ''type'' \<mapsto> VStr ''team'', ''name'' \<mapsto> VStr ''T'', ''lead'' \<mapsto> VStr ''lee''],
      [''id'' \<mapsto> VStr ''team:U'', ''type'' \<mapsto> VStr ''team'', ''name'' \<mapsto> VStr ''U'', ''lead'' \<mapsto> VStr ''uma'']]"
  by (simp add: store_two_owners_def store_eval team_node_def team_t_def team_u_def owns_edge_def fun_eq_iff)

lemma store_two_owners_rels:
  "g_rels store_two_owners =
     [\<lparr>rel_start = 1, rel_end = 0, rel_props = [''id'' \<mapsto> VStr ''edge:T-owns-service:A'', ''type'' \<mapsto> VStr ''owns'']\<rparr>,
      \<lparr>rel_start = 2, rel_end = 0, rel_props = [''id'' \<mapsto> VStr ''edge:U-owns-service:A'', ''type'' \<mapsto> VStr ''owns'']\<rparr>]"
  by (simp add: store_two_owners_def store_eval team_node_def team_t_def team_u_def owns_edge_def fun_eq_iff)

lemma owner_rows_two:
  "owner_rows store_two_owners (VStr ''service:A'') = [g_nodes store_two_owners ! 1, g_nodes store_two_owners ! 2]"
  by (simp add: owner_rows_def store_two_owners_rels prop_is_def) (simp add: store_two_owners_nodes)

theorem get_owner_first_row_witness:
  "get_owner store_two_owners (VStr ''service:A'') = Some (g_nodes store_two_owners ! 1)
   \<and> (\<exists>r \<in> set (g_rels store_two_owners). has_id ''service:A'' (g_nodes store_two_owners ! rel_end r))
   \<and> get_owner store_two_owners (VStr ''service:B'') = None"
proof -
  have a: "owner_rows store_two_owners (VStr ''service:A'') =
      g_nodes store_two_owners ! 1 # [g_nodes store_two_owners ! 2]"
    by (rule owner_rows_two)
  have b: "\<not> (\<exists>r \<in> set (g_rels store_two_owners).
            prop_is (g_nodes store_two_owners ! rel_start r) ''type'' (VStr ''team'')
            \<and> prop_is (rel_props r) ''type'' (VStr ''owns'')
            \<and> has_id ''service:B'' (g_nodes store_two_owners ! rel_end r))"
    by (simp add: store_two_owners_rels has_id_def) (simp add: store_two_owners_nodes)
  from get_owner_first_row[of store_two_owners "''service:A''"] a
  have 1: "get_owner store_two_owners (VStr ''service:A'') = Some (g_nodes store_two_owners ! 1)"
    by blast
  with get_owner_first_row[of store_two_owners "''service:A''"]
  have 2: "\<exists>r \<in> set (g_rels store_two_owners). has_id ''service:A'' (g_nodes store_two_owners ! rel_end r)"
    by blast
  from get_owner_first_row[of store_two_owners "''service:B''"] b
  have 3: "get_owner store_two_owners (VStr ''service:B'') = None"
    by blast
  from 1 2 3 show ?thesis by blast
qed

text \<open>
  The claim as stated fails: with the teams \<open>T\<close> and \<open>U\<close> both owning service
  \<open>A\<close>, the query has two rows and \<open>get_owner\<close> returns the team of the first.
\<close>

theorem get_owner_ambiguous_counterexample:
  "node_ids (owner_rows store_two_owners (VStr ''service:A'')) = [Some (VStr ''team:T''), Some (VStr ''team:U'')]
   \<and> get_owner store_two_owners (VStr ''service:A'') = Some (g_nodes store_two_owners ! 1)
   \<and> (g_nodes store_two_owners ! 1) ''id'' = Some (VStr ''team:T'')"
  by (simp add: get_owner_def owner_rows_two node_ids_def) (simp add: store_two_owners_nodes)

subsection \<open>Blast radius\<close>

lemma set_add_keys: "py_key ` set (set_add s x) = insert (py_key x) (py_key ` set s)"
  by (auto simp: set_add_def)

lemma set_add_distinct: "distinct (map py_key s) \<Longrightarrow> distinct (map py_key (set_add s x))"
  by (auto simp: set_add_def)

lemma fold_set_add_keys:
  "py_key ` set (fold (\<lambda>n s. set_add s (get_id n)) ns s0) = py_key ` get_id ` set ns \<union> py_key ` set s0"
  by (induction ns arbitrary: s0) (auto simp: set_add_keys)

lemma fold_set_add_distinct:
  "distinct (map py_key s0) \<Longrightarrow> distinct (map py_key (fold (\<lambda>n s. set_add s (get_id n)) ns s0))"
  by (induction ns arbitrary: s0) (auto simp: set_add_distinct)

lemma all_affected_length:
  "length (set_add (fold (\<lambda>n s. set_add s (get_id n)) ns []) v) =
     card (py_key ` (get_id ` set ns \<union> {v}))"
proof -
  let ?s = "set_add (fold (\<lambda>n s. set_add s (get_id n)) ns []) v"
  have d: "distinct (map py_key ?s)"
    by (intro set_add_distinct fold_set_add_distinct) simp
  have "length ?s = length (map py_key ?s)" by simp
  also have "\<dots> = card (set (map py_key ?s))"
    using d by (simp only: distinct_card)
  also have "set (map py_key ?s) = py_key ` (get_id ` set ns \<union> {v})"
    by (simp only: set_map set_add_keys fold_set_add_keys) auto
  finally show ?thesis .
qed

lemma get_node_None_iff: "get_node g x = None \<longleftrightarrow> (\<forall>m \<in> set (g_nodes g). \<not> has_id x m)"
  by (simp add: get_node_def match_id_Nil_iff[symmetric] split: list.splits)

lemma get_node_Some: "get_node g x = Some n \<Longrightarrow> n \<in> set (g_nodes g) \<and> has_id x n"
proof -
  assume a: "get_node g x = Some n"
  then obtain k ks where m: "match_id g x = k # ks" and n: "n = g_nodes g ! k"
    by (auto simp: get_node_def split: list.splits)
  from m have "k \<in> set (match_id g x)" by simp
  then have "k < length (g_nodes g) \<and> has_id x (g_nodes g ! k)"
    by (auto simp: match_id_def)
  with n show ?thesis by simp
qed

lemma blast_radius_Some:
  "get_node g x = Some n \<Longrightarrow>
   \<exists>r. blast_radius g x = Some r \<and> br_node r = n \<and> br_upstream r = upstream g x
     \<and> br_downstream r = downstream g x
     \<and> total_affected r =
         card (py_key ` (get_id ` set (upstream g x) \<union> get_id ` set (downstream g x) \<union> {VStr x}))"
  using all_affected_length[of "upstream g x @ downstream g x" "VStr x"]
  by (simp add: blast_radius_def Let_def image_Un Un_assoc del: fold_append)

lemma chain_last: "chain g fwd v js \<Longrightarrow> js \<noteq> [] \<Longrightarrow> last js < length (g_rels g)"
  by (induction js arbitrary: v) (auto split: if_splits)

lemma closure_nodes_in_range:
  assumes "wf_graph g" and "w \<in> set (closure_nodes g fwd i)"
  shows "w < length (g_nodes g)"
proof -
  from assms(2) obtain s js where "js \<noteq> []" "chain g fwd s js" "path_end g fwd js = w"
    unfolding closure_nodes_set reachable_within_def by blast
  then have "g_rels g ! last js \<in> set (g_rels g)" and "w = rel_to fwd (g_rels g ! last js)"
    using chain_last by (auto simp: path_end_def)
  with assms(1) show ?thesis
    by (auto simp: wf_graph_def rel_to_def)
qed

lemma closure_subset_nodes:
  "wf_graph g \<Longrightarrow> set (downstream g i) \<subseteq> set (g_nodes g) \<and> set (upstream g i) \<subseteq> set (g_nodes g)"
  using closure_nodes_in_range by (auto simp: downstream_def upstream_def)

lemma unique_ids_inj:
  assumes "unique_ids g"
  shows "inj_on (\<lambda>m. py_key (get_id m)) (set (g_nodes g))"
proof (rule inj_onI)
  fix a b assume a: "a \<in> set (g_nodes g)" and b: "b \<in> set (g_nodes g)"
    and e: "py_key (get_id a) = py_key (get_id b)"
  from a b obtain j k where j: "j < length (g_nodes g)" "a = g_nodes g ! j"
    and k: "k < length (g_nodes g)" "b = g_nodes g ! k"
    by (auto simp: in_set_conv_nth)
  from assms j k obtain ia ib where "a ''id'' = Some (VStr ia)" "b ''id'' = Some (VStr ib)"
    unfolding unique_ids_def by metis
  with e have "a ''id'' = b ''id''"
    by (simp add: get_id_def py_key_def)
  with assms j k show "a = b"
    unfolding unique_ids_def by metis
qed

text \<open>
  C7 (as amended). When a node has the id, \<open>blast_radius\<close> returns a result and
  \<open>total_affected\<close> is the number of distinct ids among the upstream nodes, the
  downstream nodes and the id itself, a node in both counting once; in a store whose
  relationships end in stored nodes and whose ids are unique strings this is the
  cardinality of \<open>upstream(x) \<union> downstream(x) \<union> {x}\<close> as a set of nodes. When no
  node has the id, \<open>blast_radius\<close> does not fail: it returns \<open>None\<close> in place of
  a result, and raises nothing; the query engine has no \<open>NotFound\<close> error.
\<close>

theorem blast_radius_total:
  "((\<forall>m \<in> set (g_nodes g). \<not> has_id x m) \<longrightarrow> blast_radius g x = None)
   \<and> ((\<exists>m \<in> set (g_nodes g). has_id x m) \<longrightarrow>
        (\<exists>r. blast_radius g x = Some r
           \<and> br_upstream r = upstream g x \<and> br_downstream r = downstream g x
           \<and> total_affected r =
               card (py_key ` (get_id ` set (upstream g x) \<union> get_id ` set (downstream g x) \<union> {VStr x}))
           \<and> (wf_graph g \<and> unique_ids g \<longrightarrow>
                total_affected r = card (set (upstream g x) \<union> set (downstream g x) \<union> {br_node r}))))"
proof (intro conjI impI)
  assume "\<forall>m \<in> set (g_nodes g). \<not> has_id x m"
  then have "get_node g x = None" by (simp add: get_node_None_iff)
  then show "blast_radius g x = None" by (simp add: blast_radius_def)
next
  assume "\<exists>m \<in> set (g_nodes g). has_id x m"
  then obtain n where n: "get_node g x = Some n"
    using get_node_None_iff[of g x] by (cases "get_node g x") auto
  from blast_radius_Some[OF n] obtain r where r: "blast_radius g x = Some r" "br_node r = n"
    "br_upstream r = upstream g x" "br_downstream r = downstream g x"
    "total_affected r =
         card (py_key ` (get_id ` set (upstream g x) \<union> get_id ` set (downstream g x) \<union> {VStr x}))"
    by blast
  have "total_affected r = card (set (upstream g x) \<union> set (downstream g x) \<union> {br_node r})"
    if w: "wf_graph g" and u: "unique_ids g"
  proof -
    let ?f = "\<lambda>m. py_key (get_id m)"
    let ?S = "set (upstream g x) \<union> set (downstream g x) \<union> {n}"
    from get_node_Some[OF n] have nn: "n \<in> set (g_nodes g)" "?f n = VStr x"
      by (auto simp: has_id_def get_id_def py_key_def)
    have sub: "?S \<subseteq> set (g_nodes g)"
      using closure_subset_nodes[OF w, of x] nn by auto
    have "py_key ` (get_id ` set (upstream g x) \<union> get_id ` set (downstream g x) \<union> {VStr x}) = ?f ` ?S"
    proof -
      have "py_key (VStr x) = ?f n" using nn(2) by (simp add: py_key_def)
      then show ?thesis by (simp add: image_Un image_image)
    qed
    moreover have "card (?f ` ?S) = card ?S"
      using unique_ids_inj[OF u] sub by (intro card_image) (rule inj_on_subset)
    ultimately show ?thesis
      using r by simp
  qed
  with r show "\<exists>r. blast_radius g x = Some r
           \<and> br_upstream r = upstream g x \<and> br_downstream r = downstream g x
           \<and> total_affected r =
               card (py_key ` (get_id ` set (upstream g x) \<union> get_id ` set (downstream g x) \<union> {VStr x}))
           \<and> (wf_graph g \<and> unique_ids g \<longrightarrow>
                total_affected r = card (set (upstream g x) \<union> set (downstream g x) \<union> {br_node r}))"
    by blast
qed


lemma store_abc_wf: "wf_graph store_abc"
  by (simp add: wf_graph_def store_abc_rels store_abc_nodes)

lemma store_abc_unique: "unique_ids store_abc"
  by (auto simp: unique_ids_def store_abc_nodes less_Suc_eq)

lemma updown_b:
  "upstream store_abc ''service:B'' = [g_nodes store_abc ! 0, g_nodes store_abc ! 3]"
  "downstream store_abc ''service:B'' = [g_nodes store_abc ! 2]"
  by (simp_all add: upstream_def downstream_def closure_abc)

lemma get_node_b: "get_node store_abc ''service:B'' = Some (g_nodes store_abc ! 1)"
  by (simp add: get_node_def match_id_def has_id_def store_abc_nodes)

lemma total_b: "map_option total_affected (blast_radius store_abc ''service:B'') = Some 4"
  by (simp add: blast_radius_def get_node_b updown_b Let_def)
     (simp add: store_abc_nodes set_add_def get_id_def py_key_def)

theorem blast_radius_total_witness:
  "map_option total_affected (blast_radius store_abc ''service:B'') = Some 4
   \<and> card (set (upstream store_abc ''service:B'') \<union> set (downstream store_abc ''service:B'')
            \<union> {g_nodes store_abc ! 1}) = 4
   \<and> blast_radius store_abc ''service:Z'' = None"
proof -
  have h1: "\<exists>m \<in> set (g_nodes store_abc). has_id ''service:B'' m"
    by (simp add: store_abc_nodes has_id_def)
  have h2: "\<forall>m \<in> set (g_nodes store_abc). \<not> has_id ''service:Z'' m"
    by (simp add: store_abc_nodes has_id_def)
  from blast_radius_total[of store_abc "''service:B''"] h1 store_abc_wf store_abc_unique
  obtain r where r: "blast_radius store_abc ''service:B'' = Some r"
    "total_affected r = card (set (upstream store_abc ''service:B'')
        \<union> set (downstream store_abc ''service:B'') \<union> {br_node r})"
    by blast
  have n: "br_node r = g_nodes store_abc ! 1"
    using r(1) by (auto simp: blast_radius_def get_node_b Let_def)
  from blast_radius_total[of store_abc "''service:Z''"] h2
  have z: "blast_radius store_abc ''service:Z'' = None" by blast
  from r n z total_b show ?thesis by simp
qed

text \<open>
  The claim as stated fails: for an id that no stored node has, the call returns normally
  with the value \<open>None\<close>, where the claim has it fail with \<open>NotFound\<close>.
\<close>

theorem blast_radius_not_found_counterexample:
  "get_node store_abc ''team:X'' = None \<and> blast_radius store_abc ''team:X'' = None"
proof -
  have "match_id store_abc ''team:X'' = []"
    by (simp add: match_id_def has_id_def store_abc_nodes)
  then have "get_node store_abc ''team:X'' = None"
    by (simp add: get_node_def)
  then show ?thesis
    by (simp add: blast_radius_def)
qed

subsection \<open>Edge types of the connectors\<close>

lemma dep_edge_typed:
  "typed_by_target services (dep_edge name source_id dep (infer_node_type dep (service_of services dep)))"
  unfolding typed_by_target_def
  by (intro exI[of _ dep] exI[of _ "infer_node_type dep (service_of services dep)"])
     (simp add: dep_edge_def infer_edge_type_def)

lemma fold_add_edge_inv:
  assumes "\<forall>e \<in> set es. P e" and "\<And>x es. \<forall>e \<in> set es. P e \<Longrightarrow> \<forall>e \<in> set (f x es). P e"
  shows "\<forall>e \<in> set (fold f xs es). P e"
  using assms(1) by (induction xs arbitrary: es) (auto dest: assms(2))

lemma add_edge_inv: "\<forall>e \<in> set es. P e \<Longrightarrow> P x \<Longrightarrow> \<forall>e \<in> set (add_edge es x). P e"
  by (auto dest: add_edge_target)

lemma compose_service_edges_typed:
  assumes "\<forall>e \<in> set es. typed_by_target services e"
  shows "\<forall>e \<in> set (compose_service_edges services item es). typed_by_target services e"
  unfolding compose_service_edges_def Let_def
proof (rule fold_add_edge_inv, rule fold_add_edge_inv, rule assms)
  fix x es assume "\<forall>e \<in> set es. typed_by_target services e"
  then show "\<forall>e \<in> set (add_edge es (dep_edge (fst item) (infer_node_type (fst item) (snd item) @ '':'' @ fst item) x
                  (infer_node_type x (service_of services x)))). typed_by_target services e"
    by (intro add_edge_inv dep_edge_typed)
next
  fix kv es assume a: "\<forall>e \<in> set es. typed_by_target services e"
  show "\<forall>e \<in> set (if sublist ''_URL'' (fst kv) \<and> snd kv \<noteq> [] then
                   (case extract_service_from_url (snd kv) of
                      None \<Rightarrow> es
                    | Some target_name \<Rightarrow>
                        if target_name \<noteq> [] \<and> map_of services target_name \<noteq> None
                           \<and> infer_node_type target_name (service_of services target_name)
                                @ '':'' @ target_name \<noteq> infer_node_type (fst item) (snd item) @ '':'' @ fst item
                        then add_edge es (dep_edge (fst item) (infer_node_type (fst item) (snd item) @ '':'' @ fst item) target_name
                               (infer_node_type target_name (service_of services target_name)))
                        else es)
                 else es). typed_by_target services e"
    using a add_edge_inv[OF a dep_edge_typed]
    by (simp split: option.splits)
qed

lemma compose_edges_typed: "\<forall>e \<in> set (compose_edges services). typed_by_target services e"
  unfolding compose_edges_def
  by (rule fold_add_edge_inv) (simp, rule compose_service_edges_typed)

lemma k8s_edges_calls:
  "\<forall>e \<in> set (es :: Edge list). edge_type e = ''calls'' \<and> (\<exists>t. target e = ''service:'' @ t) \<Longrightarrow>
   \<forall>e \<in> set (k8s_deployment_edges name env_vars es). edge_type e = ''calls'' \<and> (\<exists>t. target e = ''service:'' @ t)"
  unfolding k8s_deployment_edges_def
proof (rule fold_add_edge_inv, assumption)
  fix kv and es :: "Edge list"
  assume a: "\<forall>e \<in> set es. edge_type e = ''calls'' \<and> (\<exists>t. target e = ''service:'' @ t)"
  show "\<forall>e \<in> set (if sublist ''_URL'' (fst kv) \<and> snd kv \<noteq> [] then
               (case extract_service_from_k8s_url (snd kv) of
                  None \<Rightarrow> es
                | Some target_name \<Rightarrow>
                    if target_name \<noteq> [] \<and> target_name \<noteq> name
                    then add_edge es
                           \<lparr>edge_id = ''edge:'' @ name @ ''-calls-'' @ target_name,
                            edge_type = ''calls'',
                            source = ''service:'' @ name,
                            target = ''service:'' @ target_name,
                            edge_properties = [''via'' \<mapsto> VStr ''k8s_env'']\<rparr>
                    else es)
             else es). edge_type e = ''calls'' \<and> (\<exists>t. target e = ''service:'' @ t)"
    using a by (auto split: option.splits dest!: add_edge_target)
qed

text \<open>
  C9 (as amended). Every dependency edge the compose connector derives, from a declared
  dependency or from a \<open>_URL\<close> environment value naming a service of the file, has the
  type given by the inferred type of its target: \<open>reads_from\<close> for a database,
  \<open>uses\<close> for a cache, \<open>calls\<close> otherwise. The cluster-manifest connector does not
  share the rule: every edge it derives has the type \<open>calls\<close> and a target
  \<open>service:<name>\<close>, whatever the name.
\<close>

theorem dependency_edge_types:
  "(\<forall>e \<in> set (compose_edges services). typed_by_target services e)
   \<and> (\<forall>e \<in> set (k8s_deployment_edges name env_vars []).
         edge_type e = ''calls'' \<and> (\<exists>t. target e = ''service:'' @ t))"
  using compose_edges_typed k8s_edges_calls[of "[]"] by simp


lemma compose_example_edges:
  "map edge_type (compose_edges compose_example) = [''uses'', ''reads_from'']"
  "map target (compose_edges compose_example) = [''cache:sessions'', ''database:postgres'']"
  by code_simp+

lemma k8s_example_edges:
  "map edge_type (k8s_deployment_edges ''api'' (k8s_env_vars k8s_example_env) []) = [''calls'']"
  "map target (k8s_deployment_edges ''api'' (k8s_env_vars k8s_example_env) []) = [''service:postgres'']"
  by code_simp+

lemma shared_rule_postgres:
  "infer_node_type ''postgres'' empty_service = ''database''"
  "infer_edge_type (infer_node_type ''postgres'' empty_service) = ''reads_from''"
  by code_simp+

theorem dependency_edge_types_witness:
  "compose_edges compose_example \<noteq> []
   \<and> typed_by_target compose_example (hd (compose_edges compose_example))
   \<and> k8s_deployment_edges ''api'' (k8s_env_vars k8s_example_env) [] \<noteq> []
   \<and> edge_type (hd (k8s_deployment_edges ''api'' (k8s_env_vars k8s_example_env) [])) = ''calls''"
proof -
  have a: "compose_edges compose_example \<noteq> []"
    using compose_example_edges(1) by auto
  have b: "k8s_deployment_edges ''api'' (k8s_env_vars k8s_example_env) [] \<noteq> []"
    using k8s_example_edges(1) by auto
  from a b dependency_edge_types[of compose_example "''api''" "k8s_env_vars k8s_example_env"]
  show ?thesis
    by (meson hd_in_set)
qed

text \<open>
  The claim as stated fails: for the endpoint \<open>postgres\<close>, which the shared rule infers
  to be a database, the compose connector derives a \<open>reads_from\<close> edge to
  \<open>database:postgres\<close> and the cluster-manifest connector a \<open>calls\<close> edge to
  \<open>service:postgres\<close>.
\<close>

theorem k8s_edge_type_counterexample:
  "map edge_type (k8s_deployment_edges ''api'' (k8s_env_vars k8s_example_env) []) = [''calls'']
   \<and> map target (k8s_deployment_edges ''api'' (k8s_env_vars k8s_example_env) []) = [''service:postgres'']
   \<and> infer_node_type ''postgres'' empty_service = ''database''
   \<and> infer_edge_type (infer_node_type ''postgres'' empty_service) = ''reads_from''
   \<and> map edge_type (compose_edges compose_example) = [''uses'', ''reads_from'']
   \<and> map target (compose_edges compose_example) = [''cache:sessions'', ''database:postgres'']"
  using compose_example_edges k8s_example_edges shared_rule_postgres by blast

subsection \<open>Shortest path\<close>

lemma uwalk_snoc:
  "p \<noteq> [] \<Longrightarrow> uwalk g (p @ [w]) \<longleftrightarrow> uwalk g p \<and> w \<in> set (neighbours g (last p))"
  by (induction g p rule: uwalk.induct) auto

lemma uwalk_join:
  "uwalk g (as @ v # bs) \<longleftrightarrow> uwalk g (as @ [v]) \<and> uwalk g (v # bs)"
proof (induction g as rule: uwalk.induct)
  case (1 g)
  then show ?case by simp
next
  case (2 g u)
  then show ?case by (cases bs) auto
next
  case (3 g u w p)
  then show ?case by simp
qed

lemma uwalk_simplify:
  "uwalk g q \<Longrightarrow> \<exists>p. uwalk g p \<and> hd p = hd q \<and> last p = last q \<and> distinct p \<and> length p \<le> length q"
proof (induction "length q" arbitrary: q rule: less_induct)
  case less
  show ?case
  proof (cases "distinct q")
    case True
    with less.prems show ?thesis by blast
  next
    case False
    then obtain xs ys zs v where d: "q = xs @ [v] @ ys @ [v] @ zs"
      using not_distinct_decomp by blast
    let ?q2 = "xs @ v # zs"
    have "uwalk g (xs @ [v])" and "uwalk g (v # zs)"
      using less.prems unfolding d
      using uwalk_join[of g xs v "ys @ [v] @ zs"] uwalk_join[of g "v # ys" v zs]
      by auto
    then have w: "uwalk g ?q2" by (simp add: uwalk_join[of g xs v zs])
    have h: "hd ?q2 = hd q" by (cases xs) (auto simp: d)
    have l: "last ?q2 = last q" by (simp add: d)
    have n: "length ?q2 < length q" by (simp add: d)
    from less.hyps[OF n w] h l n show ?thesis
      by (metis le_trans less_imp_le_nat)
  qed
qed

lemma extend_paths_simple:
  assumes "set ps = simple_from g s k"
  shows "set (extend_paths g ps) = simple_from g s (Suc k)"
proof (intro set_eqI iffI)
  fix q assume "q \<in> set (extend_paths g ps)"
  then obtain p w where p: "p \<in> set ps" and w: "w \<in> set (neighbours g (last p))" "w \<notin> set p"
    and q: "q = p @ [w]"
    by (auto simp: extend_paths_def)
  from p assms have pp: "uwalk g p" "hd p = s" "distinct p" "length p = Suc k"
    by (auto simp: simple_from_def)
  then have ne: "p \<noteq> []" by auto
  with pp w q show "q \<in> simple_from g s (Suc k)"
    by (simp add: simple_from_def uwalk_snoc)
next
  fix q assume "q \<in> simple_from g s (Suc k)"
  then have qq: "uwalk g q" "hd q = s" "distinct q" "length q = Suc (Suc k)"
    by (auto simp: simple_from_def)
  then have "q \<noteq> []" by auto
  then obtain p w where q: "q = p @ [w]" by (metis rev_exhaust)
  with qq have ne: "p \<noteq> []" by auto
  with qq q have "uwalk g p" "w \<in> set (neighbours g (last p))" "hd p = s" "distinct p" "w \<notin> set p"
      "length p = Suc k"
    by (auto simp: uwalk_snoc)
  with assms have "p \<in> set ps" by (simp add: simple_from_def)
  with \<open>w \<in> set (neighbours g (last p))\<close> \<open>w \<notin> set p\<close> q show "q \<in> set (extend_paths g ps)"
    by (auto simp: extend_paths_def)
qed

lemma simple_from_0: "set [[s]] = simple_from g s 0"
proof -
  have "p = [s]" if "hd p = s" "length p = Suc 0" for p :: "nat list"
    using that by (cases p) auto
  then show ?thesis by (auto simp: simple_from_def)
qed

lemma shortest_from_spec:
  assumes "set ps = simple_from g s k"
  shows "(shortest_from g d t ps = [] \<and> (\<forall>j. k < j \<and> j \<le> k + d \<longrightarrow> hits g s t j = {}))
       \<or> (\<exists>m. k < m \<and> m \<le> k + d \<and> shortest_from g d t ps \<noteq> []
              \<and> set (shortest_from g d t ps) = hits g s t m
              \<and> (\<forall>j. k < j \<and> j < m \<longrightarrow> hits g s t j = {}))"
  using assms
proof (induction d arbitrary: ps k)
  case 0
  have "\<forall>j. k < j \<and> j \<le> k + 0 \<longrightarrow> hits g s t j = {}" by auto
  then show ?case by simp
next
  case (Suc d)
  let ?ps' = "extend_paths g ps"
  have e: "set ?ps' = simple_from g s (Suc k)"
    using Suc.prems by (rule extend_paths_simple)
  have f: "set (filter (\<lambda>p. last p = t) ?ps') = hits g s t (Suc k)"
    by (auto simp: e hits_def)
  show ?case
  proof (cases "filter (\<lambda>p. last p = t) ?ps' = []")
    case False
    then have "shortest_from g (Suc d) t ps = filter (\<lambda>p. last p = t) ?ps'" by simp
    with False f have "k < Suc k \<and> Suc k \<le> k + Suc d \<and> shortest_from g (Suc d) t ps \<noteq> []
              \<and> set (shortest_from g (Suc d) t ps) = hits g s t (Suc k)
              \<and> (\<forall>j. k < j \<and> j < Suc k \<longrightarrow> hits g s t j = {})"
      by auto
    then show ?thesis by blast
  next
    case True
    then have r: "shortest_from g (Suc d) t ps = shortest_from g d t ?ps'" by simp
    from True f have h0: "hits g s t (Suc k) = {}" by (metis set_empty)
    have lt: "j = Suc k \<or> Suc k < j" if "k < j" for j using that by auto
    from Suc.IH[OF e] show ?thesis
    proof
      assume a: "shortest_from g d t ?ps' = [] \<and> (\<forall>j. Suc k < j \<and> j \<le> Suc k + d \<longrightarrow> hits g s t j = {})"
      have "\<forall>j. k < j \<and> j \<le> k + Suc d \<longrightarrow> hits g s t j = {}"
        using a h0 lt by (metis add_Suc add_Suc_right)
      with a r show ?thesis by simp
    next
      assume "\<exists>m. Suc k < m \<and> m \<le> Suc k + d \<and> shortest_from g d t ?ps' \<noteq> []
              \<and> set (shortest_from g d t ?ps') = hits g s t m
              \<and> (\<forall>j. Suc k < j \<and> j < m \<longrightarrow> hits g s t j = {})"
      then obtain m where m: "Suc k < m" "m \<le> Suc k + d" "shortest_from g d t ?ps' \<noteq> []"
              "set (shortest_from g d t ?ps') = hits g s t m"
              "\<forall>j. Suc k < j \<and> j < m \<longrightarrow> hits g s t j = {}" by blast
      have "\<forall>j. k < j \<and> j < m \<longrightarrow> hits g s t j = {}"
        using m(5) h0 lt by metis
      with m r have "k < m \<and> m \<le> k + Suc d \<and> shortest_from g (Suc d) t ps \<noteq> []
              \<and> set (shortest_from g (Suc d) t ps) = hits g s t m
              \<and> (\<forall>j. k < j \<and> j < m \<longrightarrow> hits g s t j = {})"
        by auto
      then show ?thesis by blast
    qed
  qed
qed


lemma walk_has_hit:
  assumes "walk_between g s t q" and "s \<noteq> t"
  shows "\<exists>j. 0 < j \<and> Suc j \<le> length q \<and> hits g s t j \<noteq> {}"
proof -
  from assms(1) have "uwalk g q" "hd q = s" "last q = t"
    by (auto simp: walk_between_def)
  with uwalk_simplify[of g q] obtain p where
    p: "uwalk g p" "hd p = s" "last p = t" "distinct p" "length p \<le> length q" by auto
  have "p \<noteq> []" using p(1) by auto
  moreover have "p \<noteq> [s]" using p(3) assms(2) by auto
  ultimately have "2 \<le> length p"
    using p(2) by (cases p) (auto simp: Suc_le_eq)
  then obtain j where j: "length p = Suc j" "0 < j"
    by (cases "length p") auto
  with p have "p \<in> hits g s t j" by (simp add: hits_def simple_from_def)
  with j p(5) show ?thesis by auto
qed

lemma hit_is_walk: "p \<in> hits g s t j \<Longrightarrow> walk_between g s t p \<and> distinct p \<and> length p = Suc j"
  by (simp add: hits_def simple_from_def walk_between_def)

lemma shortest_paths_none:
  assumes "s \<noteq> t" and "\<not> joined_within g 15 s t"
  shows "shortest_paths g s t = []"
proof -
  have spec: "(shortest_from g 15 t [[s]] = [] \<and> (\<forall>j. 0 < j \<and> j \<le> 0 + 15 \<longrightarrow> hits g s t j = {}))
       \<or> (\<exists>m. 0 < m \<and> m \<le> 0 + 15 \<and> shortest_from g 15 t [[s]] \<noteq> []
              \<and> set (shortest_from g 15 t [[s]]) = hits g s t m
              \<and> (\<forall>j. 0 < j \<and> j < m \<longrightarrow> hits g s t j = {}))"
    by (rule shortest_from_spec[OF simple_from_0])
  from spec
  show ?thesis
  proof
    assume "shortest_from g 15 t [[s]] = [] \<and> (\<forall>j. 0 < j \<and> j \<le> 0 + 15 \<longrightarrow> hits g s t j = {})"
    then show ?thesis by (simp add: shortest_paths_def)
  next
    assume "\<exists>m. 0 < m \<and> m \<le> 0 + 15 \<and> shortest_from g 15 t [[s]] \<noteq> []
              \<and> set (shortest_from g 15 t [[s]]) = hits g s t m
              \<and> (\<forall>j. 0 < j \<and> j < m \<longrightarrow> hits g s t j = {})"
    then obtain m where m: "m \<le> 15" "shortest_from g 15 t [[s]] \<noteq> []"
        "set (shortest_from g 15 t [[s]]) = hits g s t m"
      by auto
    then obtain p where "p \<in> hits g s t m"
      by (metis last_in_set)
    then have "walk_between g s t p \<and> length p = Suc m"
      using hit_is_walk by blast
    with m(1) have "joined_within g 15 s t"
      unfolding joined_within_def by (intro exI[of _ p]) simp
    with assms(2) show ?thesis by simp
  qed
qed

lemma shortest_paths_some:
  assumes "s \<noteq> t" and "joined_within g 15 s t"
  shows "shortest_paths g s t \<noteq> []
    \<and> (\<forall>p \<in> set (shortest_paths g s t).
          walk_between g s t p \<and> distinct p \<and> length p \<le> 16
          \<and> (\<forall>q. walk_between g s t q \<longrightarrow> length p \<le> length q))"
proof -
  from assms(2) obtain q0 where q0: "walk_between g s t q0" "length q0 \<le> Suc 15"
    unfolding joined_within_def by blast
  from walk_has_hit[OF q0(1) assms(1)]
  obtain j0 where j: "0 < j0" "Suc j0 \<le> length q0" "hits g s t j0 \<noteq> {}" by blast
  from j(2) q0(2) have "j0 \<le> 15" by linarith
  with j have j0: "0 < j0" "j0 \<le> 15" "hits g s t j0 \<noteq> {}" by auto
  have spec: "(shortest_from g 15 t [[s]] = [] \<and> (\<forall>j. 0 < j \<and> j \<le> 0 + 15 \<longrightarrow> hits g s t j = {}))
       \<or> (\<exists>m. 0 < m \<and> m \<le> 0 + 15 \<and> shortest_from g 15 t [[s]] \<noteq> []
              \<and> set (shortest_from g 15 t [[s]]) = hits g s t m
              \<and> (\<forall>j. 0 < j \<and> j < m \<longrightarrow> hits g s t j = {}))"
    by (rule shortest_from_spec[OF simple_from_0])
  from spec
  show ?thesis
  proof
    assume "shortest_from g 15 t [[s]] = [] \<and> (\<forall>j. 0 < j \<and> j \<le> 0 + 15 \<longrightarrow> hits g s t j = {})"
    with j0 show ?thesis by simp
  next
    assume "\<exists>m. 0 < m \<and> m \<le> 0 + 15 \<and> shortest_from g 15 t [[s]] \<noteq> []
              \<and> set (shortest_from g 15 t [[s]]) = hits g s t m
              \<and> (\<forall>j. 0 < j \<and> j < m \<longrightarrow> hits g s t j = {})"
    then obtain m where m: "0 < m" "m \<le> 15" "shortest_paths g s t \<noteq> []"
       "set (shortest_paths g s t) = hits g s t m" "\<forall>j. 0 < j \<and> j < m \<longrightarrow> hits g s t j = {}"
      by (auto simp: shortest_paths_def)
    have "walk_between g s t p \<and> distinct p \<and> length p \<le> 16
          \<and> (\<forall>q. walk_between g s t q \<longrightarrow> length p \<le> length q)"
      if "p \<in> set (shortest_paths g s t)" for p
    proof -
      from that m(4) have p: "walk_between g s t p" "distinct p" "length p = Suc m"
        using hit_is_walk by blast+
      have "length p \<le> length q" if "walk_between g s t q" for q
      proof -
        from walk_has_hit[OF that assms(1)] obtain j where
          j: "0 < j" "Suc j \<le> length q" "hits g s t j \<noteq> {}" by blast
        with m(5) have "m \<le> j" by (meson not_le)
        with j(2) p(3) show ?thesis by simp
      qed
      with p m(2) show ?thesis by simp
    qed
    with m(3) show ?thesis by blast
  qed
qed

lemma distinct_first_id: "distinct xs \<Longrightarrow> distinct_first xs = xs"
  by (simp add: distinct_first_def distinct_remdups_id)

lemma product_single: "List.product [s] [t] = [(s, t)]"
  by simp

text \<open>
  C2 (as amended). \<open>path(fromId, toId)\<close> treats edges as undirected and is bounded to
  fifteen hops. When an endpoint id is not in the store the result is empty. For two
  different nodes, each id held by one node: when no walk of at most fifteen hops joins
  them the result is empty; otherwise the result is the ordered node sequence of a walk
  from the first to the second that visits no node twice, and no walk between them has
  fewer nodes: its length is the true shortest hop count. Which of several shortest paths
  is returned is the database's choice; no order on node ids is consulted. For
  \<open>path(a, a)\<close> the result is not \<open>[a]\<close>: the database raises an error, or
  returns nothing when the setting that forbids common end nodes is off.
\<close>

theorem path_shortest:
  "(match_id g a = [] \<or> match_id g b = [] \<longrightarrow> path fc pick g a b = Inr [])
   \<and> (match_id g a = [s] \<and> match_id g b = [t] \<and> valid_choice pick \<longrightarrow>
        (s = t \<longrightarrow> path fc pick g a b = (if fc then Inl ShortestPathCommonNodes else Inr []))
        \<and> (s \<noteq> t \<and> \<not> joined_within g 15 s t \<longrightarrow> path fc pick g a b = Inr [])
        \<and> (s \<noteq> t \<and> joined_within g 15 s t \<longrightarrow>
             (\<exists>p. path fc pick g a b = Inr (map (\<lambda>k. g_nodes g ! k) p)
                \<and> walk_between g s t p \<and> distinct p \<and> length p \<le> 16
                \<and> (\<forall>q. walk_between g s t q \<longrightarrow> length p \<le> length q))))"
proof (intro conjI impI)
  assume "match_id g a = [] \<or> match_id g b = []"
  then have "List.product (match_id g a) (match_id g b) = []"
    by (auto simp: product_Nil2)
  then show "path fc pick g a b = Inr []"
    by (simp add: path_def distinct_first_def)
next
  assume h: "match_id g a = [s] \<and> match_id g b = [t] \<and> valid_choice pick"
  then have rows: "List.product (match_id g a) (match_id g b) = [(s, t)]" by simp
  {
    assume "s = t"
    then show "path fc pick g a b = (if fc then Inl ShortestPathCommonNodes else Inr [])"
      by (simp add: path_def rows distinct_first_def)
  }
  {
    assume a: "s \<noteq> t \<and> \<not> joined_within g 15 s t"
    then have "shortest_paths g s t = []" by (simp add: shortest_paths_none)
    with a show "path fc pick g a b = Inr []"
      by (simp add: path_def rows distinct_first_def)
  }
  {
    assume a: "s \<noteq> t \<and> joined_within g 15 s t"
    from shortest_paths_some[of s t g] a
    have ne: "shortest_paths g s t \<noteq> []"
      and all: "\<forall>p \<in> set (shortest_paths g s t).
          walk_between g s t p \<and> distinct p \<and> length p \<le> 16
          \<and> (\<forall>q. walk_between g s t q \<longrightarrow> length p \<le> length q)" by blast+
    let ?p = "pick (shortest_paths g s t)"
    from h ne have m: "?p \<in> set (shortest_paths g s t)"
      by (simp add: valid_choice_def)
    with all have p: "walk_between g s t ?p \<and> distinct ?p \<and> length ?p \<le> 16
          \<and> (\<forall>q. walk_between g s t q \<longrightarrow> length ?p \<le> length q)" by blast
    have dp: "distinct_first ?p = ?p"
      using p by (simp add: distinct_first_id)
    have cs: "(case shortest_paths g s t of [] \<Rightarrow> [] | p # ps \<Rightarrow> pick (p # ps)) = ?p"
      using ne by (cases "shortest_paths g s t") auto
    have "path fc pick g a b = Inr (map (\<lambda>k. g_nodes g ! k) ?p)"
      using a by (simp add: path_def rows cs dp)
    with p show "\<exists>p. path fc pick g a b = Inr (map (\<lambda>k. g_nodes g ! k) p)
                \<and> walk_between g s t p \<and> distinct p \<and> length p \<le> 16
                \<and> (\<forall>q. walk_between g s t q \<longrightarrow> length p \<le> length q)"
      by blast
  }
qed

lemma valid_choice_hd: "valid_choice hd"
  by (simp add: valid_choice_def)

lemma valid_choice_last: "valid_choice last"
  by (simp add: valid_choice_def)

lemma store_diamond_nodes:
  "g_nodes store_diamond =
     [[''id'' \<mapsto> VStr ''service:A'', ''type'' \<mapsto> VStr ''service'', ''name'' \<mapsto> VStr ''A''],
      [''id'' \<mapsto> VStr ''service:B'', ''type'' \<mapsto> VStr ''service'', ''name'' \<mapsto> VStr ''B''],
      [''id'' \<mapsto> VStr ''service:C'', ''type'' \<mapsto> VStr ''service'', ''name'' \<mapsto> VStr ''C''],
      [''id'' \<mapsto> VStr ''service:D'', ''type'' \<mapsto> VStr ''service'', ''name'' \<mapsto> VStr ''D'']]"
  by (simp add: store_diamond_def store_eval fun_eq_iff)

lemma store_diamond_ends:
  "map rel_start (g_rels store_diamond) = [0, 0, 1, 2]"
  "map rel_end (g_rels store_diamond) = [2, 1, 3, 3]"
  by (simp_all add: store_diamond_def store_eval eval_nat_numeral)

lemma match_diamond:
  "match_id store_diamond ''service:A'' = [0]" "match_id store_diamond ''service:D'' = [3]"
  by (simp_all add: match_id_def has_id_def store_diamond_nodes eval_nat_numeral)

lemma match_abc:
  "match_id store_abc ''service:A'' = [0]" "match_id store_abc ''service:C'' = [2]"
  "match_id store_abc ''service:Z'' = []"
  by (simp_all add: match_id_def has_id_def store_abc_nodes eval_nat_numeral)

lemma shortest_diamond: "shortest_paths store_diamond 0 3 = [[0, 2, 3], [0, 1, 3]]"
  by code_simp

lemma shortest_abc: "shortest_paths store_abc 0 2 = [[0, 1, 2]]"
  by code_simp

lemma store_apart_nodes:
  "g_nodes store_apart =
     [[''id'' \<mapsto> VStr ''service:A'', ''type'' \<mapsto> VStr ''service'', ''name'' \<mapsto> VStr ''A''],
      [''id'' \<mapsto> VStr ''service:B'', ''type'' \<mapsto> VStr ''service'', ''name'' \<mapsto> VStr ''B'']]"
  by (simp add: store_apart_def store_eval fun_eq_iff)

lemma store_apart_rels: "g_rels store_apart = []"
  by (simp add: store_apart_def store_eval)

lemma match_apart:
  "match_id store_apart ''service:A'' = [0]" "match_id store_apart ''service:B'' = [1]"
  by (simp_all add: match_id_def has_id_def store_apart_nodes)

lemma apart_not_joined: "\<not> joined_within store_apart 15 0 1"
proof
  assume "joined_within store_apart 15 0 1"
  then obtain p where p: "uwalk store_apart p" "hd p = 0" "last p = 1"
    by (auto simp: joined_within_def walk_between_def)
  have "neighbours store_apart v = []" for v
    by (simp add: neighbours_def store_apart_rels)
  with p(1) have "length p = 1"
    by (induction store_apart p rule: uwalk.induct) auto
  with p(2,3) show False by (cases p) auto
qed

lemma abc_joined: "joined_within store_abc 15 0 2"
  unfolding joined_within_def walk_between_def
  by (intro exI[of _ "[0, 1, 2]"]) (simp add: neighbours_def store_abc_rels)

theorem path_shortest_witness:
  "path True hd store_abc ''service:A'' ''service:C'' = Inr (map ((!) (g_nodes store_abc)) [0, 1, 2])
   \<and> \<not> (\<exists>q. walk_between store_abc 0 2 q \<and> length q < 3)
   \<and> path True hd store_abc ''service:Z'' ''service:C'' = Inr []
   \<and> path True hd store_apart ''service:A'' ''service:B'' = Inr []
   \<and> path True hd store_abc ''service:A'' ''service:A'' = Inl ShortestPathCommonNodes
   \<and> path False hd store_abc ''service:A'' ''service:A'' = Inr []"
proof -
  have e: "path True hd store_abc ''service:A'' ''service:C'' = Inr (map ((!) (g_nodes store_abc)) [0, 1, 2])"
    by (simp add: path_def match_abc shortest_abc distinct_first_def)
  from path_shortest[of store_abc "''service:A''" "''service:C''" True hd 0 2]
    match_abc valid_choice_hd abc_joined
  obtain p where p: "path True hd store_abc ''service:A'' ''service:C'' = Inr (map (\<lambda>k. g_nodes store_abc ! k) p)"
    "\<forall>q. walk_between store_abc 0 2 q \<longrightarrow> length p \<le> length q"
    by auto
  from p(1) e have "length p = 3"
    by (metis length_map sum.inject(2) length_Cons list.size(3) numeral_3_eq_3)
  with p(2) have 1: "\<not> (\<exists>q. walk_between store_abc 0 2 q \<and> length q < 3)"
    by (auto simp: not_less)
  from path_shortest[of store_abc "''service:Z''" "''service:C''" True hd] match_abc
  have 2: "path True hd store_abc ''service:Z'' ''service:C'' = Inr []" by blast
  from path_shortest[of store_apart "''service:A''" "''service:B''" True hd 0 1]
    match_apart valid_choice_hd apart_not_joined
  have 3: "path True hd store_apart ''service:A'' ''service:B'' = Inr []" by auto
  from path_shortest[of store_abc "''service:A''" "''service:A''" True hd 0 0] match_abc valid_choice_hd
  have 4: "path True hd store_abc ''service:A'' ''service:A'' = Inl ShortestPathCommonNodes" by auto
  from path_shortest[of store_abc "''service:A''" "''service:A''" False hd 0 0] match_abc valid_choice_hd
  have 5: "path False hd store_abc ''service:A'' ''service:A'' = Inr []" by auto
  from e 1 2 3 4 5 show ?thesis by blast
qed

text \<open>
  The claim as stated fails: in the diamond the database may return either of the two
  shortest paths from \<open>A\<close> to \<open>D\<close>, the one through \<open>C\<close> as well as the one
  through \<open>B\<close>; and \<open>path(A, A)\<close> is an error, or empty, never \<open>[A]\<close>.
\<close>

theorem path_tie_break_counterexample:
  "path True hd store_diamond ''service:A'' ''service:D'' = Inr (map ((!) (g_nodes store_diamond)) [0, 2, 3])
   \<and> path True last store_diamond ''service:A'' ''service:D'' = Inr (map ((!) (g_nodes store_diamond)) [0, 1, 3])
   \<and> node_ids (map ((!) (g_nodes store_diamond)) [0, 2, 3]) =
       [Some (VStr ''service:A''), Some (VStr ''service:C''), Some (VStr ''service:D'')]
   \<and> path True hd store_diamond ''service:A'' ''service:A'' = Inl ShortestPathCommonNodes
   \<and> path False hd store_diamond ''service:A'' ''service:A'' = Inr []"
  by (simp add: path_def match_diamond shortest_diamond distinct_first_def node_ids_def)
     (simp add: store_diamond_nodes)

end
